theory Spec2Isabelle
  imports Complex_Main "HOL-Library.AList"
begin

section \<open>Strings and slices\<close>

text \<open>
  A Go \<open>string\<close> is a sequence of bytes and \<open>len\<close> counts bytes, which is what
  \<^typ>\<open>string\<close> and \<^const>\<open>length\<close> are here. The slice expression \<open>s[a:b]\<close>
  panics unless \<open>a \<le> b \<le> len(s)\<close>; every slice the scanner takes is inside that
  range (see \<open>splitIntoChunks\<close> and the type \<open>regexp\<close> below), where it is the
  \<open>b - a\<close> bytes that follow the first \<open>a\<close>.
\<close>

definition slice :: "string \<Rightarrow> nat \<Rightarrow> nat \<Rightarrow> string" where
  "slice s a b = take (b - a) (drop a s)"

section \<open>The chunk splitter (scanner.go, splitIntoChunks)\<close>

record chunk =
  chunk_text :: string
  chunk_offset :: nat

definition chunkSize :: nat where
  "chunkSize = 10000"

text \<open>
  The loop \<open>for i := 0; i < len(text); i += chunkSize\<close>, with the slice \<open>chunks\<close> it
  appends to as the accumulator.
\<close>

function splitLoop :: "string \<Rightarrow> nat \<Rightarrow> chunk list \<Rightarrow> chunk list" where
  "splitLoop text i chunks =
     (if i < length text then
        (let end = (if i + chunkSize > length text then length text else i + chunkSize)
         in splitLoop text (i + chunkSize)
              (chunks @ [\<lparr>chunk_text = slice text i end, chunk_offset = i\<rparr>]))
      else chunks)"
  by pat_completeness auto
termination
  by (relation "measure (\<lambda>(text, i, chunks). length text - i)") (auto simp: chunkSize_def)

definition splitIntoChunks :: "string \<Rightarrow> chunk list" where
  "splitIntoChunks text = splitLoop text 0 []"

text \<open>The number of chunks of a text: its length divided by \<open>chunkSize\<close>, rounded up.\<close>

definition nchunks :: "string \<Rightarrow> nat" where
  "nchunks text = (length text + (chunkSize - 1)) div chunkSize"

section \<open>UTF-8 decoding (what \<open>range\<close> over a Go string yields)\<close>

text \<open>
  \<open>for _, c := range s\<close> walks the runes of \<open>s\<close>: at each position the bytes are decoded
  as UTF-8 the way \<open>utf8.DecodeRuneInString\<close> of the Go standard library does it. A byte
  below \<open>0x80\<close> is a rune of width 1; a well-formed sequence of 2, 3 or 4 bytes is one
  rune; anything else is \<open>utf8.RuneError\<close> (U+FFFD) of width 1. Bytes are given as
  numbers (\<^term>\<open>of_char c :: nat\<close>).
\<close>

definition RuneError :: nat where
  "RuneError = 65533"

definition cont :: "nat \<Rightarrow> bool" where
  "cont b = (128 \<le> b \<and> b \<le> 191)"

text \<open>The range of the second byte accepted after the first byte \<open>b0\<close> of a 3- or 4-byte sequence.\<close>

definition acceptLo :: "nat \<Rightarrow> nat" where
  "acceptLo b0 = (if b0 = 224 then 160 else if b0 = 240 then 144 else 128)"

definition acceptHi :: "nat \<Rightarrow> nat" where
  "acceptHi b0 = (if b0 = 237 then 159 else if b0 = 244 then 143 else 191)"

fun decodeRune :: "nat list \<Rightarrow> nat \<times> nat" where
  "decodeRune [] = (RuneError, 0)"
| "decodeRune (b0 # bs) =
     (if b0 < 128 then (b0, 1)
      else if 194 \<le> b0 \<and> b0 \<le> 223 then
        (case bs of
           b1 # _ \<Rightarrow>
             if cont b1 then ((b0 mod 32) * 64 + b1 mod 64, 2) else (RuneError, 1)
         | _ \<Rightarrow> (RuneError, 1))
      else if 224 \<le> b0 \<and> b0 \<le> 239 then
        (case bs of
           b1 # b2 # _ \<Rightarrow>
             if acceptLo b0 \<le> b1 \<and> b1 \<le> acceptHi b0 \<and> cont b2
             then (((b0 mod 16) * 64 + b1 mod 64) * 64 + b2 mod 64, 3)
             else (RuneError, 1)
         | _ \<Rightarrow> (RuneError, 1))
      else if 240 \<le> b0 \<and> b0 \<le> 244 then
        (case bs of
           b1 # b2 # b3 # _ \<Rightarrow>
             if acceptLo b0 \<le> b1 \<and> b1 \<le> acceptHi b0 \<and> cont b2 \<and> cont b3
             then ((((b0 mod 8) * 64 + b1 mod 64) * 64 + b2 mod 64) * 64 + b3 mod 64, 4)
             else (RuneError, 1)
         | _ \<Rightarrow> (RuneError, 1))
      else (RuneError, 1))"

lemma decodeRune_width: "0 < snd (decodeRune (b # bs))"
  by (simp split: list.splits)

function runesOf :: "nat list \<Rightarrow> nat list" where
  "runesOf [] = []"
| "runesOf (b # bs) =
     fst (decodeRune (b # bs)) # runesOf (drop (snd (decodeRune (b # bs))) (b # bs))"
  by pat_completeness auto
termination
proof (relation "measure length")
  show "wf (measure length)" by simp
next
  fix b :: nat and bs
  have "0 < snd (decodeRune (b # bs))" by (rule decodeRune_width)
  then show "(drop (snd (decodeRune (b # bs))) (b # bs), b # bs) \<in> measure length"
    by simp
qed

definition runes :: "string \<Rightarrow> nat list" where
  "runes s = runesOf (map of_char s)"

section \<open>Entropy and likelihood (package patterns)\<close>

text \<open>
  \<open>charCount\<close> is the map from rune to count that the first loop of \<open>CalculateEntropy\<close>
  builds, kept as an association list in the order the runes first occur.

  \<open>CalculateEntropy\<close> below is the function in exact arithmetic: every \<open>float64\<close>
  operation returns its real result, and the sum does not depend on the order in which
  the second loop visits the map. \<open>CalculateEntropy64\<close> further down is the same function
  with the rounding of each operation and the order of the visit; the verdict of
  \<open>IsLikelySecret\<close> is taken from that one.
\<close>

definition increment :: "nat \<Rightarrow> (nat \<times> nat) list \<Rightarrow> (nat \<times> nat) list" where
  "increment c charCount =
     AList.update c ((case map_of charCount c of None \<Rightarrow> 0 | Some n \<Rightarrow> n) + 1) charCount"

definition charCount :: "string \<Rightarrow> (nat \<times> nat) list" where
  "charCount s = fold increment (runes s) []"

definition CalculateEntropy :: "string \<Rightarrow> real" where
  "CalculateEntropy s =
     (if length s = 0 then 0
      else fold (\<lambda>(c, count) entropy.
                   entropy - (real count / real (length s)) * log 2 (real count / real (length s)))
             (charCount s) 0)"

text \<open>
  \<open>strings.ToLower\<close>: a string of ASCII bytes only is lowered byte by byte; any other
  string goes through \<open>strings.Map(unicode.ToLower, s)\<close>, whose Unicode tables belong
  to the Go standard library and are the parameter \<open>unicodeLower\<close> here.
\<close>

definition lowerByte :: "char \<Rightarrow> char" where
  "lowerByte c =
     (if (65::nat) \<le> of_char c \<and> of_char c \<le> (90::nat) then char_of (of_char c + (32::nat)) else c)"

definition ToLower :: "(string \<Rightarrow> string) \<Rightarrow> string \<Rightarrow> string" where
  "ToLower unicodeLower s =
     (if \<forall>c \<in> set s. of_char c < (128::nat) then map lowerByte s else unicodeLower s)"

text \<open>
  \<open>strings.ContainsAny(s, chars)\<close> for a set \<open>chars\<close> of ASCII characters, which is how
  \<open>IsLikelySecret\<close> calls it: a byte of \<open>s\<close> is one of \<open>chars\<close> (no byte of a multi-byte
  rune, and no ill-formed byte, equals an ASCII byte).
\<close>

definition ContainsAny :: "string \<Rightarrow> string \<Rightarrow> bool" where
  "ContainsAny s chars = (\<exists>c \<in> set s. c \<in> set chars)"

definition commonWords :: "string list" where
  "commonWords = [''password'', ''secret'', ''key'', ''token'']"

definition characterTypes :: "string \<Rightarrow> nat" where
  "characterTypes s =
     (if ContainsAny s ''ABCDEFGHIJKLMNOPQRSTUVWXYZ'' then 1 else 0) +
     (if ContainsAny s ''abcdefghijklmnopqrstuvwxyz'' then 1 else 0) +
     (if ContainsAny s ''0123456789'' then 1 else 0) +
     (if ContainsAny s ''!@#$%^&*()_+-=[]{}|;:,.<>?'' then 1 else 0)"

text \<open>
  \<open>float64\<close> arithmetic. A finite \<open>float64\<close> value is a real number, and an operation
  on finite values returns the real result, rounded to a \<open>float64\<close>. The rounding,
  \<open>math.Log2\<close> and the order in which \<open>range\<close> visits a map belong to the Go compiler,
  runtime and library, and are the fields of a \<open>runtime\<close>:

  \<^item> \<open>rnd\<close> rounds a quotient or a difference;
  \<^item> \<open>rnd_mul\<close> rounds a product; it is the identity where the compiler fuses the
    multiplication with the subtraction that follows, which the Go specification allows;
  \<^item> \<open>Log2\<close> is \<open>math.Log2\<close> on \<open>float64\<close> values;
  \<^item> \<open>visit\<close> gives each entry of the map its rank in the iteration: \<open>range\<close> visits the
    entries by increasing rank (Go leaves the order open, and it may differ from one call
    to the next).

  The conversions \<open>float64(count)\<close> and \<open>float64(len(s))\<close> are exact: both numbers are
  far below \<open>2\<^sup>5\<^sup>3\<close>.
\<close>

record runtime =
  rnd :: "real \<Rightarrow> real"
  rnd_mul :: "real \<Rightarrow> real"
  Log2 :: "real \<Rightarrow> real"
  visit :: "nat \<times> nat \<Rightarrow> nat"

definition CalculateEntropy64 :: "runtime \<Rightarrow> string \<Rightarrow> real" where
  "CalculateEntropy64 rt s =
     (if length s = 0 then 0
      else fold (\<lambda>(c, count) entropy.
                   let freq = rnd rt (real count / real (length s))
                   in rnd rt (entropy - rnd_mul rt (freq * Log2 rt freq)))
             (sort_key (visit rt) (charCount s)) 0)"

text \<open>
  What IEEE 754 arithmetic and \<open>math.Log2\<close> guarantee, and far less than they guarantee:
  on values of magnitude between 1/100 and 100 a rounding has a relative error of at
  most 1/1000 (that of \<open>float64\<close> is at most \<open>2\<^sup>-\<^sup>5\<^sup>3\<close>), and on arguments between 1/100 and
  1 the logarithm has an absolute error of at most 1/1000. \<open>exact_runtime\<close> is the runtime
  without rounding, which visits the map in the order of \<open>charCount\<close>.
\<close>

definition float64_ok :: "runtime \<Rightarrow> bool" where
  "float64_ok rt \<longleftrightarrow>
     (\<forall>x. 1 / 100 \<le> \<bar>x\<bar> \<and> \<bar>x\<bar> \<le> 100 \<longrightarrow>
          \<bar>rnd rt x - x\<bar> \<le> \<bar>x\<bar> / 1000 \<and> \<bar>rnd_mul rt x - x\<bar> \<le> \<bar>x\<bar> / 1000) \<and>
     (\<forall>x. 1 / 100 \<le> x \<and> x \<le> 1 \<longrightarrow> \<bar>Log2 rt x - log 2 x\<bar> \<le> 1 / 1000)"

definition exact_runtime :: runtime where
  "exact_runtime = \<lparr>rnd = (\<lambda>x. x), rnd_mul = (\<lambda>x. x), Log2 = log 2, visit = (\<lambda>e. 0)\<rparr>"

text \<open>
  An arithmetic that does round: \<open>round64\<close> takes a real number to the nearest number of
  53 significant bits, a tie to the one whose last bit is 0, which is the rounding of
  \<open>float64\<close> where the exponent stays in range (no overflow, no subnormal number).
  \<open>binary64 order\<close> is the runtime that rounds every quotient, product and difference
  this way, whose \<open>Log2\<close> is the logarithm rounded this way, and which visits a map in
  the order \<open>order\<close>.
\<close>

definition exponent :: "real \<Rightarrow> int" where
  "exponent x = \<lfloor>log 2 \<bar>x\<bar>\<rfloor>"

definition ulp :: "real \<Rightarrow> real" where
  "ulp x = 2 powr (of_int (exponent x) - 52)"

definition nearest_even :: "real \<Rightarrow> int" where
  "nearest_even y =
     (let n = \<lfloor>y\<rfloor> in
      if y - of_int n < 1 / 2 then n
      else if 1 / 2 < y - of_int n then n + 1
      else if even n then n else n + 1)"

definition round64 :: "real \<Rightarrow> real" where
  "round64 x = (if x = 0 then 0 else of_int (nearest_even (x / ulp x)) * ulp x)"

definition binary64 :: "(nat \<times> nat \<Rightarrow> nat) \<Rightarrow> runtime" where
  "binary64 order =
     \<lparr>rnd = round64, rnd_mul = round64, Log2 = (\<lambda>x. round64 (log 2 x)), visit = order\<rparr>"

text \<open>
  \<open>IsLikelySecret\<close>: the entropy is the \<open>float64\<close> value that the call of
  \<open>CalculateEntropy\<close> returns, and the comparison of two finite \<open>float64\<close> values is
  exact. The threshold is a finite \<open>float64\<close> value.
\<close>

definition IsLikelySecret :: "runtime \<Rightarrow> (string \<Rightarrow> string) \<Rightarrow> string \<Rightarrow> real \<Rightarrow> bool" where
  "IsLikelySecret rt unicodeLower s entropyThreshold =
     (if length s < 8 \<or> length s > 100 then False
      else if \<exists>word \<in> set commonWords. word = ToLower unicodeLower s then False
      else if CalculateEntropy64 rt s < entropyThreshold then False
      else characterTypes s \<ge> 3)"

text \<open>
  From the words of the specification, to compare \<open>CalculateEntropy\<close> with: the Shannon
  entropy, in bits, of the distribution of the characters of a sequence: the
  sum of \<open>- p * log\<^sub>2 p\<close> over the distinct characters, \<open>p\<close> the share of the character
  among all characters of the sequence.
\<close>

definition shannon_spec :: "'a list \<Rightarrow> real" where
  "shannon_spec xs =
     (\<Sum>c \<in> set xs. - (real (count_list xs c) / real (length xs))
                       * log 2 (real (count_list xs c) / real (length xs)))"

section \<open>Compiled regular expressions\<close>

text \<open>
  \<open>*regexp.Regexp\<close> belongs to the Go standard library. The scanner uses a compiled
  expression through \<open>FindAllStringIndex(chunk, -1)\<close> only, so a compiled expression is
  taken as that function: from a text to the index pairs \<open>[start, end]\<close> of its matches.
  The library returns pairs with \<open>start \<le> end \<le> len(text)\<close>, which is what makes the
  slices \<open>chunk[:match[0]]\<close> and \<open>chunk[match[0]:match[1]]\<close> of \<open>scanChunk\<close> safe; the
  type holds exactly the functions that do.
\<close>

typedef regexp = "{f :: string \<Rightarrow> (nat \<times> nat) list. \<forall>s. \<forall>(a, b) \<in> set (f s). a \<le> b \<and> b \<le> length s}"
  by (rule exI [of _ "\<lambda>_. []"]) simp

setup_lifting type_definition_regexp

lift_definition FindAllStringIndex :: "regexp \<Rightarrow> string \<Rightarrow> (nat \<times> nat) list"
  is "\<lambda>f. f" .

text \<open>
  A compiled expression to run the scanner on: the one for a pattern \<open>w\<close> without
  metacharacters, which matches the text \<open>w\<close> itself. \<open>literalFrom w s pos\<close> follows the
  loop of the library's \<open>allMatches\<close>: the leftmost match at or after \<open>pos\<close> is reported
  and the search goes on behind it; behind an empty match (the pattern \<open>w\<close> is empty) it
  goes on one rune further, and past the end of the text it stops. The empty pattern
  matches the empty string at every rune boundary, the end of the text included.
\<close>

function literalFrom :: "string \<Rightarrow> string \<Rightarrow> nat \<Rightarrow> (nat \<times> nat) list" where
  "literalFrom w s pos =
     (if length s < pos then []
      else if take (length w) (drop pos s) = w then
        (pos, pos + length w) #
          literalFrom w s
            (if w = [] then
               (if pos < length s then pos + snd (decodeRune (map of_char (drop pos s)))
                else length s + 1)
             else pos + length w)
      else literalFrom w s (pos + 1))"
  by pat_completeness auto
termination
proof (relation "measure (\<lambda>(w, s, pos). length s + 1 - pos)")
  show "wf (measure (\<lambda>(w, s, pos). length s + 1 - pos))" by simp
next
  fix w s :: string and pos :: nat
  assume le: "\<not> length s < pos"
  show "((w, s, if w = [] then if pos < length s
                                then pos + snd (decodeRune (map of_char (drop pos s)))
                                else length s + 1
                 else pos + length w), w, s, pos)
        \<in> measure (\<lambda>(w, s, pos). length s + 1 - pos)"
  proof (cases "w = []")
    case False
    then have "0 < length w" by simp
    with le False show ?thesis by (simp, arith)
  next
    case True
    show ?thesis
    proof (cases "pos < length s")
      case lt: True
      then obtain b bs where "map of_char (drop pos s) = (b :: nat) # bs"
        by (cases "drop pos s") auto
      then have "0 < snd (decodeRune (map of_char (drop pos s)))"
        using decodeRune_width [of b bs] by simp
      with le True lt show ?thesis by simp
    next
      case False
      with le True show ?thesis by simp
    qed
  qed
next
  fix w s :: string and pos :: nat
  assume "\<not> length s < pos"
  then show "((w, s, pos + 1), w, s, pos) \<in> measure (\<lambda>(w, s, pos). length s + 1 - pos)"
    by simp
qed

declare literalFrom.simps [simp del]

lemma literalFrom_range: "\<forall>(a, b) \<in> set (literalFrom w s pos). a \<le> b \<and> b \<le> length s"
proof (induction w s pos rule: literalFrom.induct)
  case (1 w s pos)
  show ?case
  proof (cases "length s < pos")
    case True
    then show ?thesis by (subst literalFrom.simps) simp
  next
    case le: False
    show ?thesis
    proof (cases "take (length w) (drop pos s) = w")
      case True
      then have "length w = length (take (length w) (drop pos s))" by simp
      then have "pos + length w \<le> length s" using le by simp
      with 1(1) [OF le True] le True show ?thesis
        by (subst literalFrom.simps) simp
    next
      case False
      with 1(2) [OF le False] le show ?thesis
        by (subst literalFrom.simps) simp
    qed
  qed
qed

lift_definition Literal :: "string \<Rightarrow> regexp"
  is "\<lambda>w s. literalFrom w s 0"
  using literalFrom_range by blast

section \<open>The scanner (scanner.go)\<close>

record Result =
  Type :: string
  Value :: string
  StartIndex :: int
  EndIndex :: int
  LineNumber :: int
  Confidence :: real
  Description :: string

datatype error = Cancelled | InvalidPattern

text \<open>
  The map \<open>patterns\<close> is an association list with one entry per name; its order stands
  for the order in which \<open>range s.patterns\<close> visits the map, which Go leaves open, so a
  statement about every list is a statement about every order. The \<open>sync.Map\<close> cache is
  a partial function from the input to the stored findings.
\<close>

record Scanner =
  patterns :: "(string \<times> regexp) list"
  cache :: "string \<rightharpoonup> Result list"
  workers :: int

definition WithWorkers :: "int \<Rightarrow> Scanner \<Rightarrow> Scanner" where
  "WithWorkers n s = (if n > 0 then s\<lparr>workers := n\<rparr> else s)"

definition New :: "(Scanner \<Rightarrow> Scanner) list \<Rightarrow> Scanner" where
  "New opts = fold (\<lambda>opt s. opt s) opts \<lparr>patterns = [], cache = Map.empty, workers = 4\<rparr>"

text \<open>
  \<open>AddPattern\<close>, with \<open>regexp.Compile\<close> of the standard library as the parameter
  \<open>Compile\<close>: \<open>None\<close> is its error. The result is the error returned and the scanner
  afterwards.
\<close>

definition AddPattern ::
  "(string \<Rightarrow> regexp option) \<Rightarrow> Scanner \<Rightarrow> string \<Rightarrow> string \<Rightarrow> error option \<times> Scanner" where
  "AddPattern Compile s name pattern =
     (case Compile pattern of
        None \<Rightarrow> (Some InvalidPattern, s)
      | Some compiled \<Rightarrow> (None, s\<lparr>patterns := AList.update name compiled (patterns s)\<rparr>))"

definition calculateConfidence :: "string \<Rightarrow> real" where
  "calculateConfidence secret =
     (let entropy = 0.8 in if length secret < 8 then entropy * 0.5 else entropy)"

definition descriptions :: "(string \<times> string) list" where
  "descriptions =
     [(''aws_access_key'', ''Possible AWS access key detected''),
      (''aws_secret'', ''Possible AWS secret access key detected''),
      (''github_token'', ''Possible GitHub token detected''),
      (''google_api'', ''Possible Google API key detected''),
      (''stripe_key'', ''Possible Stripe API key detected''),
      (''slack_token'', ''Possible Slack token detected''),
      (''twitter_bearer_token'', ''Possible Twitter bearer token detected''),
      (''facebook_access_token'', ''Possible Facebook access token detected''),
      (''azure_storage_account_key'', ''Possible Azure Storage account key detected''),
      (''digitalocean_access_token'', ''Possible DigitalOcean access token detected''),
      (''heroku_api_key'', ''Possible Heroku API key detected''),
      (''sendgrid_api_key'', ''Possible SendGrid API key detected''),
      (''twilio_api_key'', ''Possible Twilio API key detected''),
      (''mailgun_api_key'', ''Possible Mailgun API key detected''),
      (''paypal_bearer_token'', ''Possible PayPal bearer token detected''),
      (''firebase_api_key'', ''Possible Firebase API key detected''),
      (''square_access_token'', ''Possible Square access token detected''),
      (''shopify_access_token'', ''Possible Shopify access token detected''),
      (''pinterest_access_token'', ''Possible Pinterest access token detected''),
      (''asana_personal_access_token'', ''Possible Asana personal access token detected''),
      (''gitlab_personal_access_token'', ''Possible GitLab personal access token detected''),
      (''twitch_access_token'', ''Possible Twitch access token detected''),
      (''dropbox_access_token'', ''Possible Dropbox access token detected''),
      (''microsoft_graph_access_token'', ''Possible Microsoft Graph access token detected''),
      (''bitbucket_access_token'', ''Possible Bitbucket access token detected''),
      (''huggingface_token'', ''Possible Hugging Face token detected''),
      (''rsa_private'', ''Possible RSA private key detected''),
      (''ssh_private'', ''Possible SSH private key detected''),
      (''pgp_private'', ''Possible PGP private key detected''),
      (''generic_private'', ''Possible generic private key detected''),
      (''dsa_private'', ''Possible DSA private key detected''),
      (''ec_private'', ''Possible EC private key detected''),
      (''putty_private'', ''Possible PuTTY private key detected''),
      (''jwt_private'', ''Possible JWT private key detected''),
      (''pkcs8_private'', ''Possible PKCS8 private key detected''),
      (''pem_certificate'', ''Possible PEM certificate detected''),
      (''pkcs12_private'', ''Possible PKCS12 private key detected''),
      (''cosign_private'', ''Possible Cosign private key detected''),
      (''sigstore_private'', ''Possible Sigstore private key detected''),
      (''complex_password'', ''Possible complex password detected'')]"

definition getDescription :: "string \<Rightarrow> string" where
  "getDescription patternType =
     (case map_of descriptions patternType of
        Some desc \<Rightarrow> desc
      | None \<Rightarrow> ''Unknown secret type detected'')"

text \<open>
  The finding \<open>scanChunk\<close> builds for one match \<open>[a, b]\<close> of the pattern \<open>patternName\<close>;
  \<open>strings.Count(chunk[:a], "\n")\<close> counts the newline bytes before the match.
\<close>

definition newResult :: "string \<Rightarrow> string \<Rightarrow> nat \<Rightarrow> nat \<times> nat \<Rightarrow> Result" where
  "newResult patternName chunk offset match =
     \<lparr>Type = patternName,
      Value = slice chunk (fst match) (snd match),
      StartIndex = int offset + int (fst match),
      EndIndex = int offset + int (snd match),
      LineNumber = int (count_list (slice chunk 0 (fst match)) (CHR 0x0A)) + 1,
      Confidence = calculateConfidence (slice chunk (fst match) (snd match)),
      Description = getDescription patternName\<rparr>"

text \<open>
  The first loop of \<open>scanChunk\<close>, over the patterns: the token \<open>ctx\<close> is \<open>True\<close> when the
  context is cancelled, and is polled before each pattern. The model takes the token as
  fixed for the length of a call; a cancellation that arrives while a scan runs is a
  matter of scheduling, which the model leaves out.
\<close>

fun matchLoop ::
  "bool \<Rightarrow> (string \<times> regexp) list \<Rightarrow> string \<Rightarrow> nat \<Rightarrow> Result list \<Rightarrow> Result list \<times> error option" where
  "matchLoop ctx [] chunk offset results = (results, None)"
| "matchLoop ctx ((patternName, pattern) # rest) chunk offset results =
     (if ctx then ([], Some Cancelled)
      else matchLoop ctx rest chunk offset
             (results @ map (newResult patternName chunk offset) (FindAllStringIndex pattern chunk)))"

text \<open>
  The second loop, over the findings: \<open>lineResults\<close> is the map from line number to the
  finding kept for the line, an association list in the order the lines are first seen.
\<close>

definition keepBest :: "Result \<Rightarrow> (int \<times> Result) list \<Rightarrow> (int \<times> Result) list" where
  "keepBest result lineResults =
     (case map_of lineResults (LineNumber result) of
        None \<Rightarrow> AList.update (LineNumber result) result lineResults
      | Some existing \<Rightarrow>
          if Confidence result > Confidence existing
          then AList.update (LineNumber result) result lineResults
          else lineResults)"

definition groupByLine :: "Result list \<Rightarrow> (int \<times> Result) list" where
  "groupByLine results = fold keepBest results []"

definition scanChunk :: "Scanner \<Rightarrow> bool \<Rightarrow> string \<Rightarrow> nat \<Rightarrow> Result list \<times> error option" where
  "scanChunk s ctx chunk offset =
     (case matchLoop ctx (patterns s) chunk offset [] of
        (results, Some err) \<Rightarrow> ([], Some err)
      | (results, None) \<Rightarrow> (map snd (groupByLine results), None))"

text \<open>
  The parallel path of \<open>Scan\<close>: one task per chunk, the findings of the tasks appended in
  the order the tasks deliver them. \<open>arrival k\<close> is the time at which the task of chunk
  \<open>k\<close> delivers, so every order of delivery is the order of some \<open>arrival\<close>. An error of
  a task is returned in place of the findings.
\<close>

definition collect ::
  "(nat \<Rightarrow> nat) \<Rightarrow> (Result list \<times> error option) list \<Rightarrow> Result list \<times> error option" where
  "collect arrival outs =
     (case List.find (\<lambda>out. snd out \<noteq> None) outs of
        Some out \<Rightarrow> ([], snd out)
      | None \<Rightarrow> (concat (map (\<lambda>k. fst (outs ! k)) (sort_key arrival [0..<length outs])), None))"

definition parallelPath ::
  "Scanner \<Rightarrow> bool \<Rightarrow> (nat \<Rightarrow> nat) \<Rightarrow> string \<Rightarrow> Result list \<times> error option" where
  "parallelPath s ctx arrival text =
     collect arrival
       (map (\<lambda>c. scanChunk s ctx (chunk_text c) (chunk_offset c)) (splitIntoChunks text))"

text \<open>
  \<open>Scan\<close> returns the findings and the error, as the Go function does (\<open>nil\<close> findings are
  the empty list), and the scanner afterwards: only a successful scan stores into the
  cache.
\<close>

definition Scan ::
  "Scanner \<Rightarrow> bool \<Rightarrow> (nat \<Rightarrow> nat) \<Rightarrow> string \<Rightarrow> (Result list \<times> error option) \<times> Scanner" where
  "Scan s ctx arrival text =
     (if ctx then (([], Some Cancelled), s)
      else
        (case cache s text of
           Some cached \<Rightarrow> ((cached, None), s)
         | None \<Rightarrow>
             (case (if length text < 10000 then scanChunk s ctx text 0
                    else parallelPath s ctx arrival text) of
                (results, Some err) \<Rightarrow> (([], Some err), s)
              | (results, None) \<Rightarrow> ((results, None), s\<lparr>cache := (cache s)(text \<mapsto> results)\<rparr>))))"

text \<open>
  The findings of the first loop of \<open>scanChunk\<close>, before they are grouped by line, when
  the token is not cancelled.
\<close>

definition rawMatches :: "Scanner \<Rightarrow> string \<Rightarrow> nat \<Rightarrow> Result list" where
  "rawMatches s chunk offset = fst (matchLoop False (patterns s) chunk offset [])"

text \<open>
  The scanners a program can hold: a new one, and what \<open>AddPattern\<close> and \<open>Scan\<close> leave
  behind. The order in which Go visits the map of patterns may differ from one loop to
  the next, so the list that stands for the map may be reordered at any time.
\<close>

inductive reachable :: "(string \<Rightarrow> regexp option) \<Rightarrow> Scanner \<Rightarrow> bool"
  for Compile :: "string \<Rightarrow> regexp option" where
  reachable_New: "reachable Compile (New (map WithWorkers ns))"
| reachable_AddPattern:
    "reachable Compile s \<Longrightarrow> AddPattern Compile s name pattern = (err, s')
       \<Longrightarrow> reachable Compile s'"
| reachable_Scan:
    "reachable Compile s \<Longrightarrow> Scan s ctx arrival text = (out, s') \<Longrightarrow> reachable Compile s'"
| reachable_order:
    "reachable Compile s \<Longrightarrow> set ps = set (patterns s) \<Longrightarrow> distinct (map fst ps)
       \<Longrightarrow> reachable Compile (s\<lparr>patterns := ps\<rparr>)"

section \<open>Notions the statements use\<close>


text \<open>A finding lies in a text: its offsets are in range and its value is the text between them.\<close>

definition finding_in :: "string \<Rightarrow> Result \<Rightarrow> bool" where
  "finding_in text r \<longleftrightarrow>
     0 \<le> StartIndex r \<and> StartIndex r \<le> EndIndex r \<and> EndIndex r \<le> int (length text) \<and>
     Value r = slice text (nat (StartIndex r)) (nat (EndIndex r))"

definition cache_ok :: "Scanner \<Rightarrow> bool" where
  "cache_ok s \<longleftrightarrow> (\<forall>text results. cache s text = Some results \<longrightarrow> (\<forall>r \<in> set results. finding_in text r))"

text \<open>An association list that maps each line number to a finding of that line, once.\<close>

definition keyed :: "(int \<times> Result) list \<Rightarrow> bool" where
  "keyed al \<longleftrightarrow> distinct (map fst al) \<and> (\<forall>(l, r) \<in> set al. LineNumber r = l)"

text \<open>
  A stand-in for \<open>regexp.Compile\<close> to run \<open>AddPattern\<close> on. It is used on patterns
  without metacharacters, which compile to the expression matching the pattern itself,
  and on the pattern \<open>a(\<close>, which the library rejects (missing closing parenthesis).
\<close>

definition sampleCompile :: "string \<Rightarrow> regexp option" where
  "sampleCompile pattern = (if pattern = ''a('' then None else Some (Literal pattern))"

text \<open>
  A scanner to run the functions on: two patterns that both match on the first line of
  \<open>sampleText\<close>, and one of them on its second line as well.
\<close>

definition sampleScanner :: Scanner where
  "sampleScanner =
     snd (AddPattern sampleCompile
            (snd (AddPattern sampleCompile (New []) ''word'' ''secret'')) ''long'' ''secret123'')"

definition sampleText :: string where
  "sampleText = ''key=secret123'' @ [CHR 0x0A] @ ''secret''"

definition sampleFindings :: "Result list" where
  "sampleFindings =
     [\<lparr>Type = ''long'', Value = ''secret123'', StartIndex = 4, EndIndex = 13, LineNumber = 1,
       Confidence = 0.8, Description = ''Unknown secret type detected''\<rparr>,
      \<lparr>Type = ''word'', Value = ''secret'', StartIndex = 14, EndIndex = 20, LineNumber = 2,
       Confidence = 0.4, Description = ''Unknown secret type detected''\<rparr>]"

text \<open>
  A scanner whose one pattern is the empty pattern, which compiles and matches the empty
  string, and the finding it reports at the start of a text.
\<close>

definition emptyScanner :: Scanner where
  "emptyScanner = snd (AddPattern sampleCompile (New []) ''empty'' [])"

definition emptyFinding :: Result where
  "emptyFinding =
     \<lparr>Type = ''empty'', Value = [], StartIndex = 0, EndIndex = 0, LineNumber = 1,
      Confidence = 0.4, Description = ''Unknown secret type detected''\<rparr>"

text \<open>
  A text of two chunks for the parallel path: 10000 bytes \<open>x\<close> and then \<open>secret123\<close>, and
  the finding in its second chunk.
\<close>

definition longText :: string where
  "longText = replicate 10000 (CHR ''x'') @ ''secret123''"

definition longFinding :: Result where
  "longFinding =
     \<lparr>Type = ''long'', Value = ''secret123'', StartIndex = 10000, EndIndex = 10009,
      LineNumber = 1, Confidence = 0.8, Description = ''Unknown secret type detected''\<rparr>"

section \<open>The chunk splitter: proofs\<close>

lemma slice_chunk: "slice t i (if i + chunkSize > length t then length t else i + chunkSize)
   = take chunkSize (drop i t)"
  by (auto simp: slice_def)

declare splitLoop.simps [simp del]

lemma splitLoop_step:
  "i < length t \<Longrightarrow> splitLoop t i chunks =
     splitLoop t (i + chunkSize) (chunks @ [\<lparr>chunk_text = take chunkSize (drop i t), chunk_offset = i\<rparr>])"
  by (subst splitLoop.simps) (simp add: slice_chunk Let_def)

lemma splitLoop_stop: "\<not> i < length t \<Longrightarrow> splitLoop t i chunks = chunks"
  by (subst splitLoop.simps) simp

lemma splitLoop_concat:
  "concat (map chunk_text (splitLoop t i chunks)) = concat (map chunk_text chunks) @ drop i t"
proof (induction t i chunks rule: splitLoop.induct)
  case (1 t i chunks)
  show ?case
  proof (cases "i < length t")
    case True
    have "take chunkSize (drop i t) @ drop (i + chunkSize) t = drop i t"
      by (metis add.commute append_take_drop_id drop_drop)
    with True 1 show ?thesis
      by (simp add: slice_chunk Let_def splitLoop_step)
  next
    case False
    then show ?thesis by (simp add: splitLoop_stop)
  qed
qed

lemma nchunks_less: "j < nchunks t \<longleftrightarrow> j * chunkSize < length t"
  by (simp add: nchunks_def chunkSize_def) arith

lemma splitLoop_closed:
  "splitLoop t (j * chunkSize) chunks =
     chunks @ map (\<lambda>k. \<lparr>chunk_text = take chunkSize (drop (k * chunkSize) t),
                         chunk_offset = k * chunkSize\<rparr>) [j..<nchunks t]"
proof (induction "nchunks t - j" arbitrary: j chunks)
  case 0
  then have "\<not> j * chunkSize < length t"
    by (simp add: nchunks_less [symmetric])
  with 0 show ?case by (simp add: splitLoop_stop)
next
  case (Suc n)
  then have lt: "j < nchunks t" by simp
  then have True: "j * chunkSize < length t" by (simp add: nchunks_less)
  have n: "n = nchunks t - Suc j" using Suc(2) by simp
  have "splitLoop t (j * chunkSize) chunks =
        splitLoop t (j * chunkSize + chunkSize)
          (chunks @ [\<lparr>chunk_text = take chunkSize (drop (j * chunkSize) t), chunk_offset = j * chunkSize\<rparr>])"
    using True by (rule splitLoop_step)
  also have "j * chunkSize + chunkSize = Suc j * chunkSize" by simp
  finally show ?case
    using lt by (simp only: Suc(1)[OF n]) (simp add: upt_conv_Cons)
qed

lemma splitIntoChunks_closed:
  "splitIntoChunks t =
     map (\<lambda>k. \<lparr>chunk_text = take chunkSize (drop (k * chunkSize) t),
                  chunk_offset = k * chunkSize\<rparr>) [0..<nchunks t]"
  using splitLoop_closed [of t 0 "[]"] by (simp add: splitIntoChunks_def)

lemma length_splitIntoChunks: "length (splitIntoChunks t) = nchunks t"
  by (simp add: splitIntoChunks_closed)

lemma nth_splitIntoChunks:
  "k < nchunks t \<Longrightarrow> splitIntoChunks t ! k =
     \<lparr>chunk_text = take chunkSize (drop (k * chunkSize) t), chunk_offset = k * chunkSize\<rparr>"
  by (simp add: splitIntoChunks_closed)

lemma full_chunk:
  assumes "Suc k < nchunks t"
  shows "length (take chunkSize (drop (k * chunkSize) t)) = chunkSize"
proof -
  from assms have "Suc k * chunkSize < length t" by (simp only: nchunks_less)
  then show ?thesis by simp
qed

lemma prefix_length:
  "k < nchunks t \<Longrightarrow>
     length (concat (map chunk_text (take k (splitIntoChunks t)))) = k * chunkSize"
proof (induction k)
  case 0
  show ?case by simp
next
  case (Suc k)
  then have k: "k < nchunks t" by simp
  have "take (Suc k) (splitIntoChunks t) = take k (splitIntoChunks t) @ [splitIntoChunks t ! k]"
    using k by (simp add: take_Suc_conv_app_nth length_splitIntoChunks)
  then show ?case
    using Suc.IH [OF k] full_chunk [OF Suc.prems] by (simp add: nth_splitIntoChunks k)
qed

lemma chunk_props:
  assumes "k < nchunks t"
  shows "take chunkSize (drop (k * chunkSize) t)
           = slice t (k * chunkSize) (k * chunkSize + length (take chunkSize (drop (k * chunkSize) t)))"
    and "k * chunkSize + length (take chunkSize (drop (k * chunkSize) t)) \<le> length t"
    and "0 < length (take chunkSize (drop (k * chunkSize) t))"
    and "length (take chunkSize (drop (k * chunkSize) t)) \<le> chunkSize"
proof -
  from assms have lt: "k * chunkSize < length t" by (simp only: nchunks_less)
  show "take chunkSize (drop (k * chunkSize) t)
           = slice t (k * chunkSize) (k * chunkSize + length (take chunkSize (drop (k * chunkSize) t)))"
    by (simp add: slice_def min_def)
  show "k * chunkSize + length (take chunkSize (drop (k * chunkSize) t)) \<le> length t"
    using lt by simp
  show "0 < length (take chunkSize (drop (k * chunkSize) t))"
    using lt by (simp add: chunkSize_def)
  show "length (take chunkSize (drop (k * chunkSize) t)) \<le> chunkSize" by simp
qed

text \<open>
  Claim C9. The chunks of \<open>splitIntoChunks\<close>, put together in order, are the text; chunk
  \<open>k\<close> starts at byte \<open>k * chunkSize\<close>, which is where the chunks before it end, and is
  the slice of the text from there; no chunk is empty or longer than \<open>chunkSize\<close> (10000
  bytes), and every chunk but the last is exactly that long.
\<close>

theorem splitIntoChunks_spec:
  "concat (map chunk_text (splitIntoChunks t)) = t \<and>
   (\<forall>k < length (splitIntoChunks t).
      chunk_offset (splitIntoChunks t ! k) = k * chunkSize \<and>
      chunk_offset (splitIntoChunks t ! k)
        = length (concat (map chunk_text (take k (splitIntoChunks t)))) \<and>
      chunk_text (splitIntoChunks t ! k)
        = slice t (chunk_offset (splitIntoChunks t ! k))
            (chunk_offset (splitIntoChunks t ! k) + length (chunk_text (splitIntoChunks t ! k))) \<and>
      chunk_offset (splitIntoChunks t ! k) + length (chunk_text (splitIntoChunks t ! k)) \<le> length t \<and>
      0 < length (chunk_text (splitIntoChunks t ! k)) \<and>
      length (chunk_text (splitIntoChunks t ! k)) \<le> chunkSize \<and>
      (Suc k < length (splitIntoChunks t) \<longrightarrow>
         length (chunk_text (splitIntoChunks t ! k)) = chunkSize))"
proof (intro conjI allI impI)
  show "concat (map chunk_text (splitIntoChunks t)) = t"
    using splitLoop_concat [of t 0 "[]"] by (simp add: splitIntoChunks_def)
next
  fix k assume "k < length (splitIntoChunks t)"
  then have k: "k < nchunks t" by (simp add: length_splitIntoChunks)
  note nth = nth_splitIntoChunks [OF k]
  show "chunk_offset (splitIntoChunks t ! k) = k * chunkSize" by (simp add: nth)
  show "chunk_offset (splitIntoChunks t ! k)
        = length (concat (map chunk_text (take k (splitIntoChunks t))))"
    by (simp add: nth prefix_length [OF k])
  show "chunk_text (splitIntoChunks t ! k)
        = slice t (chunk_offset (splitIntoChunks t ! k))
            (chunk_offset (splitIntoChunks t ! k) + length (chunk_text (splitIntoChunks t ! k)))"
    by (simp only: nth chunk.select_convs) (rule chunk_props(1) [OF k])
  show "chunk_offset (splitIntoChunks t ! k) + length (chunk_text (splitIntoChunks t ! k)) \<le> length t"
    using chunk_props(2) [OF k] by (simp add: nth)
  show "0 < length (chunk_text (splitIntoChunks t ! k))"
    using chunk_props(3) [OF k] by (simp add: nth)
  show "length (chunk_text (splitIntoChunks t ! k)) \<le> chunkSize"
    using chunk_props(4) [OF k] by (simp add: nth)
  assume "Suc k < length (splitIntoChunks t)"
  then have "Suc k < nchunks t" by (simp add: length_splitIntoChunks)
  from full_chunk [OF this] show "length (chunk_text (splitIntoChunks t ! k)) = chunkSize"
    by (simp add: nth)
qed

lemma nchunks_sample: "nchunks (replicate 25000 (CHR ''a'')) = 3"
  by (simp add: nchunks_def chunkSize_def)

theorem splitIntoChunks_spec_witness:
  "length (splitIntoChunks (replicate 25000 (CHR ''a''))) = 3 \<and>
   concat (map chunk_text (splitIntoChunks (replicate 25000 (CHR ''a'')))) = replicate 25000 (CHR ''a'') \<and>
   chunk_offset (splitIntoChunks (replicate 25000 (CHR ''a'')) ! 1) = 10000 \<and>
   length (chunk_text (splitIntoChunks (replicate 25000 (CHR ''a'')) ! 1)) = 10000 \<and>
   chunk_offset (splitIntoChunks (replicate 25000 (CHR ''a'')) ! 2) = 20000 \<and>
   chunk_text (splitIntoChunks (replicate 25000 (CHR ''a'')) ! 2) = replicate 5000 (CHR ''a'')"
proof -
  let ?t = "replicate 25000 (CHR ''a'')"
  have len: "length (splitIntoChunks ?t) = 3"
    by (simp add: length_splitIntoChunks nchunks_sample)
  have spec: "concat (map chunk_text (splitIntoChunks ?t)) = ?t"
    and at1: "chunk_offset (splitIntoChunks ?t ! 1) = 1 * chunkSize"
       "length (chunk_text (splitIntoChunks ?t ! 1)) = chunkSize"
    and at2: "chunk_offset (splitIntoChunks ?t ! 2) = 2 * chunkSize"
    using splitIntoChunks_spec [of ?t] by (simp_all add: len)
  have "chunk_text (splitIntoChunks ?t ! 2) = replicate 5000 (CHR ''a'')"
    by (simp add: nth_splitIntoChunks nchunks_sample chunkSize_def)
  with len spec at1 at2 show ?thesis by (simp add: chunkSize_def)
qed


section \<open>The chunk extractor: proofs\<close>

lemma FindAll_range:
  assumes "(a, b) \<in> set (FindAllStringIndex p s)"
  shows "a \<le> b \<and> b \<le> length s"
  using Rep_regexp [of p] assms by (auto simp: FindAllStringIndex.rep_eq)

lemma FindAll_Literal: "FindAllStringIndex (Literal w) s = literalFrom w s 0"
  by (simp add: FindAllStringIndex.rep_eq Literal.rep_eq)

subsection \<open>The first loop\<close>

lemma matchLoop_False:
  "matchLoop False ps chunk offset results =
     (results @ concat (map (\<lambda>(n, p). map (newResult n chunk offset) (FindAllStringIndex p chunk)) ps),
      None)"
  by (induction ps arbitrary: results) auto

lemma matchLoop_True:
  "matchLoop True ps chunk offset results =
     (if ps = [] then (results, None) else ([], Some Cancelled))"
  by (cases ps) auto

lemma matchLoop_ctx:
  "matchLoop ctx ps chunk offset [] = (results, None) \<Longrightarrow>
     results = fst (matchLoop False ps chunk offset [])"
  by (cases ctx) (auto simp: matchLoop_True matchLoop_False split: if_splits)

lemma rawMatches_eq:
  "rawMatches s chunk offset =
     concat (map (\<lambda>(n, p). map (newResult n chunk offset) (FindAllStringIndex p chunk)) (patterns s))"
  by (simp add: rawMatches_def matchLoop_False)

lemma in_rawMatches:
  "r \<in> set (rawMatches s chunk offset) \<longleftrightarrow>
     (\<exists>n p a b. (n, p) \<in> set (patterns s) \<and> (a, b) \<in> set (FindAllStringIndex p chunk) \<and>
                 r = newResult n chunk offset (a, b))"
  by (auto simp: rawMatches_eq) 

subsection \<open>The second loop\<close>

lemma set_update_subset: "set (AList.update k v al) \<subseteq> insert (k, v) (set al)"
  by (induction al) auto

lemma keyed_update: "keyed al \<Longrightarrow> keyed (AList.update (LineNumber r) r al)"
  using set_update_subset [of "LineNumber r" r al]
  by (auto simp: keyed_def distinct_update)

lemma keepBest_keyed: "keyed al \<Longrightarrow> keyed (keepBest r al)"
  by (simp add: keepBest_def keyed_update split: option.splits)

lemma fold_keepBest_keyed: "keyed al \<Longrightarrow> keyed (fold keepBest rs al)"
  by (induction rs arbitrary: al) (simp_all add: keepBest_keyed)

lemma keepBest_map_of:
  "map_of (keepBest r al) =
     (if (case map_of al (LineNumber r) of None \<Rightarrow> True | Some e \<Rightarrow> Confidence r > Confidence e)
      then (map_of al)(LineNumber r \<mapsto> r) else map_of al)"
  by (simp add: keepBest_def update_conv' split: option.splits)

lemma fold_keepBest_dom:
  "dom (map_of (fold keepBest rs al)) = dom (map_of al) \<union> LineNumber ` set rs"
proof (induction rs arbitrary: al)
  case Nil
  show ?case by simp
next
  case (Cons r rs)
  have "dom (map_of (keepBest r al)) = insert (LineNumber r) (dom (map_of al))"
    by (auto simp: keepBest_map_of split: option.splits if_splits)
  then show ?case by (simp add: Cons.IH)
qed

lemma fold_keepBest_from:
  "map_of (fold keepBest rs al) l = Some x \<Longrightarrow> x \<in> set rs \<or> map_of al l = Some x"
proof (induction rs arbitrary: al)
  case Nil
  then show ?case by simp
next
  case (Cons r rs)
  from Cons.prems have "map_of (fold keepBest rs (keepBest r al)) l = Some x" by simp
  from Cons.IH [OF this] show ?case
    by (auto simp: keepBest_map_of split: option.splits if_splits)
qed

lemma fold_keepBest_best:
  "map_of (fold keepBest rs al) l = Some x \<Longrightarrow>
     (\<forall>r' \<in> set rs. LineNumber r' = l \<longrightarrow> Confidence r' \<le> Confidence x) \<and>
     (\<forall>e. map_of al l = Some e \<longrightarrow> Confidence e \<le> Confidence x)"
proof (induction rs arbitrary: al)
  case Nil
  then show ?case by simp
next
  case (Cons r rs)
  from Cons.prems have "map_of (fold keepBest rs (keepBest r al)) l = Some x" by simp
  from Cons.IH [OF this]
  have rest: "\<forall>r' \<in> set rs. LineNumber r' = l \<longrightarrow> Confidence r' \<le> Confidence x"
    and prev: "\<forall>e. map_of (keepBest r al) l = Some e \<longrightarrow> Confidence e \<le> Confidence x"
    by blast+
  have "(LineNumber r = l \<longrightarrow> Confidence r \<le> Confidence x) \<and>
        (\<forall>e. map_of al l = Some e \<longrightarrow> Confidence e \<le> Confidence x)"
    using prev by (fastforce simp: keepBest_map_of split: option.splits if_splits)
  with rest show ?case by simp
qed

lemma keyed_lines: "keyed al \<Longrightarrow> map LineNumber (map snd al) = map fst al"
  by (induction al) (auto simp: keyed_def)

lemma keyed_set: "keyed al \<Longrightarrow> r \<in> set (map snd al) \<longleftrightarrow> map_of al (LineNumber r) = Some r"
  by (force simp: keyed_def)

lemma keyed_Nil: "keyed []"
  by (simp add: keyed_def)

lemma groupByLine_keyed: "keyed (groupByLine results)"
  by (simp add: groupByLine_def fold_keepBest_keyed keyed_Nil)

lemma groupByLine_distinct: "distinct (map LineNumber (map snd (groupByLine results)))"
proof -
  have "distinct (map fst (groupByLine results))"
    using groupByLine_keyed [of results] by (simp add: keyed_def)
  then show ?thesis
    by (simp only: keyed_lines [OF groupByLine_keyed])
qed

lemma groupByLine_subset: "set (map snd (groupByLine results)) \<subseteq> set results"
proof
  fix r assume "r \<in> set (map snd (groupByLine results))"
  then have "map_of (groupByLine results) (LineNumber r) = Some r"
    by (simp only: keyed_set [OF groupByLine_keyed])
  then show "r \<in> set results"
    unfolding groupByLine_def by (auto dest: fold_keepBest_from)
qed

lemma groupByLine_lines:
  "LineNumber ` set (map snd (groupByLine results)) = LineNumber ` set results"
proof -
  have "LineNumber ` set (map snd (groupByLine results)) = set (map fst (groupByLine results))"
    using keyed_lines [OF groupByLine_keyed, of results] by (metis set_map)
  also have "\<dots> = dom (map_of (groupByLine results))"
    by (simp add: dom_map_of_conv_image_fst)
  also have "\<dots> = LineNumber ` set results"
    by (simp add: groupByLine_def fold_keepBest_dom)
  finally show ?thesis .
qed

lemma groupByLine_best:
  assumes "r \<in> set (map snd (groupByLine results))" "r' \<in> set results"
    "LineNumber r' = LineNumber r"
  shows "Confidence r' \<le> Confidence r"
proof -
  from assms(1) have "map_of (groupByLine results) (LineNumber r) = Some r"
    by (simp only: keyed_set [OF groupByLine_keyed])
  from fold_keepBest_best [OF this [unfolded groupByLine_def]] assms(2,3)
  show ?thesis by blast
qed

lemma scanChunk_False:
  "scanChunk s False chunk offset = (map snd (groupByLine (rawMatches s chunk offset)), None)"
  by (simp add: scanChunk_def rawMatches_def matchLoop_False)

lemma scanChunk_True:
  "scanChunk s True chunk offset = (if patterns s = [] then ([], None) else ([], Some Cancelled))"
  by (simp add: scanChunk_def matchLoop_True groupByLine_def)

lemma scanChunk_ok:
  assumes "scanChunk s ctx chunk offset = (final, None)"
  shows "final = map snd (groupByLine (rawMatches s chunk offset))"
proof (cases ctx)
  case True
  with assms have "patterns s = []" "final = []"
    by (auto simp: scanChunk_True split: if_splits)
  then show ?thesis by (simp add: rawMatches_def groupByLine_def)
next
  case False
  with assms show ?thesis by (simp add: scanChunk_False)
qed

subsection \<open>The sample scanner\<close>

lemma sampleScanner_eq:
  "sampleScanner =
     \<lparr>patterns = [(''word'', Literal ''secret''), (''long'', Literal ''secret123'')],
      cache = Map.empty, workers = 4\<rparr>"
  by (simp add: sampleScanner_def AddPattern_def sampleCompile_def New_def)

lemma sample_word: "FindAllStringIndex (Literal ''secret'') sampleText = [(4, 10), (14, 20)]"
  by (simp add: FindAll_Literal sampleText_def literalFrom.simps)

lemma sample_long: "FindAllStringIndex (Literal ''secret123'') sampleText = [(4, 13)]"
  by (simp add: FindAll_Literal sampleText_def literalFrom.simps)

lemma sample_raw:
  "rawMatches sampleScanner sampleText 0 =
     [\<lparr>Type = ''word'', Value = ''secret'', StartIndex = 4, EndIndex = 10, LineNumber = 1,
       Confidence = 0.4, Description = ''Unknown secret type detected''\<rparr>,
      \<lparr>Type = ''word'', Value = ''secret'', StartIndex = 14, EndIndex = 20, LineNumber = 2,
       Confidence = 0.4, Description = ''Unknown secret type detected''\<rparr>,
      \<lparr>Type = ''long'', Value = ''secret123'', StartIndex = 4, EndIndex = 13, LineNumber = 1,
       Confidence = 0.8, Description = ''Unknown secret type detected''\<rparr>]"
  by (simp add: rawMatches_eq sampleScanner_eq sample_word sample_long)
     (simp add: newResult_def sampleText_def slice_def calculateConfidence_def
        getDescription_def descriptions_def)

lemma sample_scanChunk: "scanChunk sampleScanner False sampleText 0 = (sampleFindings, None)"
  by (simp add: scanChunk_False sample_raw groupByLine_def keepBest_def sampleFindings_def)

lemma sample_Scan:
  "Scan sampleScanner False arrival sampleText =
     ((sampleFindings, None), sampleScanner\<lparr>cache := [sampleText \<mapsto> sampleFindings]\<rparr>)"
proof -
  have "cache sampleScanner sampleText = None" "length sampleText < 10000"
    by (simp_all add: sampleScanner_eq sampleText_def)
  then show ?thesis
    by (simp add: Scan_def sample_scanChunk) (simp add: sampleScanner_eq)
qed

section \<open>Offsets and values of findings: the invariant of the cache\<close>

lemma newResult_in:
  assumes chunk: "chunk = take n (drop off t)" and off: "off \<le> length t"
    and m: "(a, b) \<in> set (FindAllStringIndex p chunk)"
  shows "finding_in t (newResult name chunk off (a, b))"
proof -
  from FindAll_range [OF m] have ab: "a \<le> b" and b: "b \<le> length chunk" by simp_all
  from b chunk have bn: "b \<le> n" and bl: "b \<le> length t - off" by simp_all
  have "slice chunk a b = take (b - a) (drop a (take n (drop off t)))"
    by (simp add: slice_def chunk)
  also have "\<dots> = take (b - a) (take (n - a) (drop (off + a) t))"
    by (simp add: drop_take add.commute)
  also have "\<dots> = take (b - a) (drop (off + a) t)"
    using bn by (simp add: min_def)
  also have "\<dots> = slice t (off + a) (off + b)"
    by (simp add: slice_def)
  finally have v: "slice chunk a b = slice t (off + a) (off + b)" .
  have n: "nat (int off + int a) = off + a" "nat (int off + int b) = off + b"
    by simp_all
  from ab bl off v show ?thesis
    by (simp add: finding_in_def newResult_def n)
qed

lemma rawMatches_in:
  assumes "chunk = take n (drop off t)" "off \<le> length t"
    and "r \<in> set (rawMatches s chunk off)"
  shows "finding_in t r"
  using assms(3) newResult_in [OF assms(1,2)] by (auto simp: in_rawMatches)

lemma scanChunk_in:
  assumes "chunk = take n (drop off t)" "off \<le> length t"
    and "scanChunk s ctx chunk off = (results, err)" and "r \<in> set results"
  shows "finding_in t r"
proof (cases err)
  case None
  with assms(3) have "results = map snd (groupByLine (rawMatches s chunk off))"
    by (simp add: scanChunk_ok)
  with assms(4) groupByLine_subset have "r \<in> set (rawMatches s chunk off)" by blast
  then show ?thesis by (rule rawMatches_in [OF assms(1,2)])
next
  case (Some e)
  with assms(3) have "results = []"
    by (auto simp: scanChunk_def split: prod.splits option.splits)
  with assms(4) show ?thesis by simp
qed

lemma collect_set:
  assumes "collect arrival outs = (results, None)"
  shows "set results = (\<Union>out \<in> set outs. set (fst out))"
proof -
  have "snd out \<noteq> None" if "find (\<lambda>out. snd out \<noteq> None) outs = Some out" for out
    using that by (auto simp: find_Some_iff)
  with assms have "results = concat (map (\<lambda>k. fst (outs ! k)) (sort_key arrival [0..<length outs]))"
    by (cases "find (\<lambda>out. snd out \<noteq> None) outs") (simp_all add: collect_def)
  then have "set results = (\<Union>k \<in> {0..<length outs}. set (fst (outs ! k)))"
    by simp
  also have "\<dots> = (\<Union>out \<in> set outs. set (fst out))"
  proof -
    have "set outs = (\<lambda>k. outs ! k) ` {0..<length outs}"
      by (metis list.set_map map_nth set_upt)
    then show ?thesis by simp
  qed
  finally show ?thesis .
qed

lemma collect_error: "collect arrival outs = (results, Some e) \<Longrightarrow> results = []"
  by (auto simp: collect_def split: option.splits)

lemma in_splitIntoChunks:
  assumes "c \<in> set (splitIntoChunks t)"
  shows "chunk_text c = take chunkSize (drop (chunk_offset c) t) \<and> chunk_offset c \<le> length t"
proof -
  from assms obtain k where k: "k < nchunks t"
    and c: "c = \<lparr>chunk_text = take chunkSize (drop (k * chunkSize) t), chunk_offset = k * chunkSize\<rparr>"
    by (auto simp: splitIntoChunks_closed)
  from k have "k * chunkSize < length t" by (simp only: nchunks_less)
  with c show ?thesis by simp
qed

lemma parallelPath_in:
  assumes "parallelPath s ctx arrival t = (results, err)" and "r \<in> set results"
  shows "finding_in t r"
proof (cases err)
  case None
  with assms(1) have "set results =
      (\<Union>out \<in> set (map (\<lambda>c. scanChunk s ctx (chunk_text c) (chunk_offset c)) (splitIntoChunks t)).
         set (fst out))"
    unfolding parallelPath_def by (simp only: collect_set)
  with assms(2) obtain c where c: "c \<in> set (splitIntoChunks t)"
    and r: "r \<in> set (fst (scanChunk s ctx (chunk_text c) (chunk_offset c)))"
    by auto
  from in_splitIntoChunks [OF c] r show ?thesis
    using scanChunk_in [of "chunk_text c" chunkSize "chunk_offset c" t s ctx
        "fst (scanChunk s ctx (chunk_text c) (chunk_offset c))"
        "snd (scanChunk s ctx (chunk_text c) (chunk_offset c))" r]
    by simp
next
  case (Some e)
  with assms show ?thesis by (auto simp: parallelPath_def dest: collect_error)
qed

lemma Scan_miss:
  "\<not> ctx \<Longrightarrow> cache s t = None \<Longrightarrow>
     Scan s ctx arrival t =
       (case (if length t < 10000 then scanChunk s ctx t 0 else parallelPath s ctx arrival t) of
          (results, Some err) \<Rightarrow> (([], Some err), s)
        | (results, None) \<Rightarrow> ((results, None), s\<lparr>cache := (cache s)(t \<mapsto> results)\<rparr>))"
  by (simp add: Scan_def)

lemma Scan_inv:
  assumes ok: "cache_ok s" and scan: "Scan s ctx arrival t = ((results, err), s')"
  shows "cache_ok s' \<and> (\<forall>r \<in> set results. finding_in t r)"
proof (cases "ctx \<or> (\<exists>cached. cache s t = Some cached)")
  case True
  with ok scan show ?thesis
    by (auto simp: Scan_def cache_ok_def split: if_splits)
next
  case False
  then have ctx: "\<not> ctx" and miss: "cache s t = None" by auto
  define out where "out = (if length t < 10000 then scanChunk s ctx t 0
                           else parallelPath s ctx arrival t)"
  have fresh: "\<forall>r \<in> set (fst out). finding_in t r"
  proof (cases "length t < 10000")
    case True
    then have "scanChunk s ctx t 0 = (fst out, snd out)" by (simp add: out_def)
    from scanChunk_in [of t "length t" 0 t, OF _ _ this] show ?thesis by simp
  next
    case False
    then have "parallelPath s ctx arrival t = (fst out, snd out)" by (simp add: out_def)
    from parallelPath_in [OF this] show ?thesis by simp
  qed
  show ?thesis
  proof (cases "snd out")
    case None
    then obtain rs where "out = (rs, None)" by (cases out) simp
    with scan have "results = fst out" "s' = s\<lparr>cache := (cache s)(t \<mapsto> fst out)\<rparr>"
      unfolding Scan_miss [OF ctx miss] out_def [symmetric] by auto
    with ok fresh show ?thesis by (auto simp: cache_ok_def)
  next
    case (Some e)
    then obtain rs where "out = (rs, Some e)" by (cases out) simp
    with scan have "results = []" "s' = s"
      unfolding Scan_miss [OF ctx miss] out_def [symmetric] by simp_all
    with ok show ?thesis by simp
  qed
qed

lemma fold_options_cache:
  "cache (fold (\<lambda>opt s. opt s) (map WithWorkers ns) s) = cache s"
  by (induction ns arbitrary: s) (simp_all add: WithWorkers_def)

lemma reachable_cache_ok: "reachable Compile s \<Longrightarrow> cache_ok s"
proof (induction rule: reachable.induct)
  case (reachable_New ns)
  show ?case by (simp add: cache_ok_def New_def fold_options_cache)
next
  case (reachable_AddPattern s name pattern err s')
  then show ?case
    by (auto simp: AddPattern_def cache_ok_def split: option.splits)
next
  case (reachable_Scan s ctx arrival t out s')
  from Scan_inv [OF reachable_Scan.IH, of ctx arrival t "fst out" "snd out" s'] reachable_Scan.hyps(2)
  show ?case by simp
next
  case (reachable_order s ps)
  then show ?case by (simp add: cache_ok_def)
qed

lemma finding_in_length:
  assumes "finding_in t r"
  shows "EndIndex r - StartIndex r = int (length (Value r))"
  using assms by (auto simp: finding_in_def slice_def)

section \<open>Deduplication, cancellation, the cache and the registry\<close>

text \<open>
  Claim C2. The findings \<open>scanChunk\<close> returns have pairwise different line numbers; each
  is one of the matches of the patterns on the chunk; every line on which a match starts
  keeps one finding, so there are as many findings as such lines; and no match that
  starts on the line of a finding has a higher confidence than the finding.
\<close>

theorem scanChunk_dedup:
  assumes "scanChunk s ctx chunk offset = (final, None)"
  shows "distinct (map LineNumber final) \<and>
         set final \<subseteq> set (rawMatches s chunk offset) \<and>
         set (rawMatches s chunk offset) =
           {newResult n chunk offset m | n p m.
              (n, p) \<in> set (patterns s) \<and> m \<in> set (FindAllStringIndex p chunk)} \<and>
         LineNumber ` set final = LineNumber ` set (rawMatches s chunk offset) \<and>
         length final = card (LineNumber ` set (rawMatches s chunk offset)) \<and>
         (\<forall>r \<in> set final. \<forall>r' \<in> set (rawMatches s chunk offset).
            LineNumber r' = LineNumber r \<longrightarrow> Confidence r' \<le> Confidence r)"
proof -
  let ?raw = "rawMatches s chunk offset"
  have final: "final = map snd (groupByLine ?raw)"
    using assms by (rule scanChunk_ok)
  have d: "distinct (map LineNumber final)"
    unfolding final by (rule groupByLine_distinct)
  have sub: "set final \<subseteq> set ?raw"
    unfolding final by (rule groupByLine_subset)
  have raw: "set ?raw = {newResult n chunk offset m | n p m.
              (n, p) \<in> set (patterns s) \<and> m \<in> set (FindAllStringIndex p chunk)}"
    by (auto simp: in_rawMatches; blast)
  have lines: "LineNumber ` set final = LineNumber ` set ?raw"
    unfolding final by (rule groupByLine_lines)
  have "length final = length (map LineNumber final)" by simp
  also have "\<dots> = card (set (map LineNumber final))"
    using d by (simp only: distinct_card)
  also have "\<dots> = card (LineNumber ` set ?raw)"
    using lines by simp
  finally have len: "length final = card (LineNumber ` set ?raw)" .
  have best: "\<forall>r \<in> set final. \<forall>r' \<in> set ?raw.
            LineNumber r' = LineNumber r \<longrightarrow> Confidence r' \<le> Confidence r"
    unfolding final using groupByLine_best by blast
  from d sub raw lines len best show ?thesis by blast
qed

theorem scanChunk_dedup_witness:
  "scanChunk sampleScanner False sampleText 0 = (sampleFindings, None) \<and>
   length (rawMatches sampleScanner sampleText 0) = 3 \<and>
   card (LineNumber ` set (rawMatches sampleScanner sampleText 0)) = 2 \<and>
   length sampleFindings = 2 \<and>
   distinct (map LineNumber sampleFindings) \<and>
   Confidence (rawMatches sampleScanner sampleText 0 ! 0) \<le> Confidence (sampleFindings ! 0)"
proof -
  note spec = scanChunk_dedup [OF sample_scanChunk]
  have "length (rawMatches sampleScanner sampleText 0) = 3"
    by (simp add: sample_raw)
  moreover have "length sampleFindings = 2"
    by (simp add: sampleFindings_def)
  moreover have "Confidence (rawMatches sampleScanner sampleText 0 ! 0) \<le> Confidence (sampleFindings ! 0)"
    by (simp add: sample_raw sampleFindings_def)
  ultimately show ?thesis using spec sample_scanChunk by simp
qed

text \<open>
  Claim C3. With the token cancelled before the call, \<open>Scan\<close> returns the cancellation
  error and no findings, whatever the input, and leaves the scanner as it was. Whenever
  \<open>Scan\<close> returns an error it returns no findings and stores nothing.
\<close>

theorem Scan_cancelled:
  "Scan s True arrival t = (([], Some Cancelled), s) \<and>
   (snd (fst (Scan s ctx arrival t)) \<noteq> None \<longrightarrow>
      fst (fst (Scan s ctx arrival t)) = [] \<and> snd (Scan s ctx arrival t) = s)"
  by (auto simp: Scan_def split: option.splits prod.splits if_splits)

theorem Scan_cancelled_witness:
  "Scan sampleScanner True id sampleText = (([], Some Cancelled), sampleScanner) \<and>
   snd (fst (Scan sampleScanner True id sampleText)) \<noteq> None \<and>
   fst (fst (Scan sampleScanner True id sampleText)) = []"
  using Scan_cancelled [of sampleScanner id sampleText True] by simp

text \<open>
  Claim C4. A scan that succeeds had a token that was not cancelled and leaves its
  findings in the cache under the text. A second scan of the same text by the scanner
  the first one left behind, again with a token that is not cancelled, succeeds with the
  same findings, whatever the order in which tasks would deliver; it changes nothing.
\<close>

theorem Scan_cached:
  assumes "Scan s ctx arrival t = ((results, None), s')"
  shows "ctx = False \<and> cache s' t = Some results \<and>
         Scan s' False arrival' t = ((results, None), s')"
proof -
  from assms have "ctx = False" and "cache s' t = Some results"
    by (auto simp: Scan_def split: option.splits prod.splits if_splits)
  then show ?thesis by (simp add: Scan_def)
qed

theorem Scan_cached_witness:
  "Scan sampleScanner False id sampleText =
     ((sampleFindings, None), sampleScanner\<lparr>cache := [sampleText \<mapsto> sampleFindings]\<rparr>) \<and>
   Scan (sampleScanner\<lparr>cache := [sampleText \<mapsto> sampleFindings]\<rparr>) False id sampleText =
     ((sampleFindings, None), sampleScanner\<lparr>cache := [sampleText \<mapsto> sampleFindings]\<rparr>)"
  using Scan_cached [OF sample_Scan [of id], of id] sample_Scan [of id] by simp

text \<open>
  Claim C7. When the pattern does not compile, \<open>AddPattern\<close> returns the error and the
  scanner is as before. When it compiles, \<open>AddPattern\<close> returns no error, the name is
  bound to the compiled expression in place of what it was bound to, every other name
  keeps its expression, each name still occurs once, and the cache and the worker count
  are as before.
\<close>

theorem AddPattern_atomic:
  "(Compile pattern = None \<longrightarrow> AddPattern Compile s name pattern = (Some InvalidPattern, s)) \<and>
   (\<forall>compiled. Compile pattern = Some compiled \<longrightarrow>
      (\<exists>s'. AddPattern Compile s name pattern = (None, s') \<and>
            map_of (patterns s') = (map_of (patterns s))(name \<mapsto> compiled) \<and>
            fst ` set (patterns s') = insert name (fst ` set (patterns s)) \<and>
            (distinct (map fst (patterns s)) \<longrightarrow> distinct (map fst (patterns s'))) \<and>
            cache s' = cache s \<and> workers s' = workers s))"
  by (auto simp: AddPattern_def update_conv' dom_update distinct_update
           simp flip: dom_map_of_conv_image_fst)

theorem AddPattern_atomic_witness:
  "sampleCompile ''a('' = None \<and>
   AddPattern sampleCompile sampleScanner ''word'' ''a('' = (Some InvalidPattern, sampleScanner) \<and>
   sampleCompile ''token'' = Some (Literal ''token'') \<and>
   fst (AddPattern sampleCompile sampleScanner ''word'' ''token'') = None \<and>
   patterns (snd (AddPattern sampleCompile sampleScanner ''word'' ''token'')) =
     [(''word'', Literal ''token''), (''long'', Literal ''secret123'')] \<and>
   map_of (patterns (snd (AddPattern sampleCompile sampleScanner ''word'' ''token''))) ''word'' =
     Some (Literal ''token'')"
proof -
  have bad: "sampleCompile ''a('' = None" and good: "sampleCompile ''token'' = Some (Literal ''token'')"
    by (simp_all add: sampleCompile_def)
  from AddPattern_atomic [of sampleCompile "''a(''" sampleScanner "''word''"] bad
  have 1: "AddPattern sampleCompile sampleScanner ''word'' ''a('' = (Some InvalidPattern, sampleScanner)"
    by simp
  from AddPattern_atomic [of sampleCompile "''token''" sampleScanner "''word''"] good
  obtain s' where s': "AddPattern sampleCompile sampleScanner ''word'' ''token'' = (None, s')"
    and m: "map_of (patterns s') = (map_of (patterns sampleScanner))(''word'' \<mapsto> Literal ''token'')"
    by blast
  have 2: "patterns (snd (AddPattern sampleCompile sampleScanner ''word'' ''token'')) =
     [(''word'', Literal ''token''), (''long'', Literal ''secret123'')]"
    by (simp add: AddPattern_def good sampleScanner_eq)
  from bad good 1 2 s' m show ?thesis by simp
qed

section \<open>The scanner with the empty pattern\<close>

lemma emptyScanner_eq:
  "emptyScanner = \<lparr>patterns = [(''empty'', Literal [])], cache = Map.empty, workers = 4\<rparr>"
  by (simp add: emptyScanner_def AddPattern_def sampleCompile_def New_def)

lemma reachable_emptyScanner: "reachable sampleCompile emptyScanner"
proof -
  have "reachable sampleCompile (New (map WithWorkers []))" by (rule reachable_New)
  then have "reachable sampleCompile (New [])" by simp
  moreover have "AddPattern sampleCompile (New []) ''empty'' [] = (None, emptyScanner)"
    by (simp add: emptyScanner_def AddPattern_def sampleCompile_def)
  ultimately show ?thesis by (rule reachable_AddPattern)
qed

lemma reachable_sampleScanner: "reachable sampleCompile sampleScanner"
proof -
  have "reachable sampleCompile (New (map WithWorkers []))" by (rule reachable_New)
  then have 0: "reachable sampleCompile (New [])" by simp
  have "AddPattern sampleCompile (New []) ''word'' ''secret''
          = (None, snd (AddPattern sampleCompile (New []) ''word'' ''secret''))"
    by (simp add: AddPattern_def sampleCompile_def)
  with 0 have 1: "reachable sampleCompile (snd (AddPattern sampleCompile (New []) ''word'' ''secret''))"
    by (rule reachable_AddPattern)
  have "AddPattern sampleCompile (snd (AddPattern sampleCompile (New []) ''word'' ''secret''))
           ''long'' ''secret123'' = (None, sampleScanner)"
    by (simp add: sampleScanner_def AddPattern_def sampleCompile_def)
  with 1 show ?thesis by (rule reachable_AddPattern)
qed

lemma empty_raw_ab: "rawMatches emptyScanner ''ab'' 0 =
   [emptyFinding, emptyFinding\<lparr>StartIndex := 1, EndIndex := 1\<rparr>,
    emptyFinding\<lparr>StartIndex := 2, EndIndex := 2\<rparr>]"
  by (simp add: rawMatches_eq emptyScanner_eq FindAll_Literal literalFrom.simps)
     (simp add: newResult_def slice_def calculateConfidence_def emptyFinding_def
        getDescription_def descriptions_def)

lemma empty_scanChunk_ab: "scanChunk emptyScanner False ''ab'' 0 = ([emptyFinding], None)"
  by (simp add: scanChunk_False empty_raw_ab groupByLine_def keepBest_def emptyFinding_def)

lemma empty_Scan_ab: "fst (Scan emptyScanner False arrival ''ab'') = ([emptyFinding], None)"
proof -
  have "cache emptyScanner ''ab'' = None" by (simp add: emptyScanner_eq)
  then show ?thesis by (simp add: Scan_def empty_scanChunk_ab)
qed





section \<open>The parallel path on a text of two chunks\<close>

lemma literalFrom_Cons:
  "literalFrom w (x # s) (Suc pos) = map (\<lambda>(a, b). (Suc a, Suc b)) (literalFrom w s pos)"
proof (induction w s pos rule: literalFrom.induct)
  case (1 w s pos)
  show ?case
  proof (cases "length s < pos")
    case True
    then show ?thesis
      by (subst literalFrom.simps, subst (2) literalFrom.simps) simp
  next
    case le: False
    show ?thesis
    proof (cases "take (length w) (drop pos s) = w")
      case True
      with 1(1) [OF le True] le show ?thesis
        by (subst literalFrom.simps, subst (2) literalFrom.simps) auto
    next
      case False
      with 1(2) [OF le False] le show ?thesis
        by (subst literalFrom.simps, subst (2) literalFrom.simps) simp
    qed
  qed
qed

lemma literalFrom_skip:
  assumes "w \<noteq> []" "hd w \<noteq> c"
  shows "literalFrom w (replicate n c @ s) 0 = map (\<lambda>(a, b). (a + n, b + n)) (literalFrom w s 0)"
proof (induction n)
  case 0
  show ?case by simp
next
  case (Suc n)
  from assms have "take (length w) (c # replicate n c @ s) \<noteq> w"
    by (cases w) auto
  then have "literalFrom w (c # replicate n c @ s) 0 = literalFrom w (c # replicate n c @ s) (Suc 0)"
    by (subst literalFrom.simps) simp
  also have "\<dots> = map (\<lambda>(a, b). (Suc a, Suc b)) (literalFrom w (replicate n c @ s) 0)"
    by (rule literalFrom_Cons)
  finally show ?case by (simp add: Suc.IH case_prod_unfold)
qed

lemma long_first_chunk:
  assumes "w \<noteq> []" "hd w \<noteq> CHR ''x''"
  shows "FindAllStringIndex (Literal w) (replicate n (CHR ''x'')) = []"
proof -
  have "literalFrom w [] 0 = []"
    using assms(1) by (simp add: literalFrom.simps)
  with literalFrom_skip [OF assms, of n "[]"] show ?thesis
    by (simp add: FindAll_Literal)
qed

lemma long_chunks:
  "splitIntoChunks longText =
     [\<lparr>chunk_text = replicate 10000 (CHR ''x''), chunk_offset = 0\<rparr>,
      \<lparr>chunk_text = ''secret123'', chunk_offset = 10000\<rparr>]"
proof -
  have "nchunks longText = 2" by (simp add: nchunks_def longText_def chunkSize_def)
  moreover have "[0..<2] = [0, Suc 0]" by (simp add: upt_rec)
  ultimately show ?thesis
    by (simp add: splitIntoChunks_closed longText_def chunkSize_def)
qed

lemma long_scan_first: "scanChunk sampleScanner False (replicate 10000 (CHR ''x'')) 0 = ([], None)"
  by (simp add: scanChunk_False rawMatches_eq sampleScanner_eq long_first_chunk groupByLine_def)

lemma long_scan_second: "scanChunk sampleScanner False ''secret123'' 10000 = ([longFinding], None)"
proof -
  have "FindAllStringIndex (Literal ''secret'') ''secret123'' = [(0, 6)]"
    and "FindAllStringIndex (Literal ''secret123'') ''secret123'' = [(0, 9)]"
    by (simp_all add: FindAll_Literal literalFrom.simps)
  then have "rawMatches sampleScanner ''secret123'' 10000 =
     [\<lparr>Type = ''word'', Value = ''secret'', StartIndex = 10000, EndIndex = 10006,
       LineNumber = 1, Confidence = 0.4, Description = ''Unknown secret type detected''\<rparr>,
      longFinding]"
    by (simp add: rawMatches_eq sampleScanner_eq)
       (simp add: newResult_def slice_def calculateConfidence_def longFinding_def
          getDescription_def descriptions_def)
  then show ?thesis
    by (simp add: scanChunk_False groupByLine_def keepBest_def longFinding_def)
qed

lemma long_parallel: "parallelPath sampleScanner False arrival longText = ([longFinding], None)"
proof -
  have "[0..<2] = [0, Suc 0]" by (simp add: upt_rec)
  then show ?thesis
    by (simp add: parallelPath_def long_chunks long_scan_first long_scan_second collect_def)
qed

lemma long_Scan:
  "Scan sampleScanner False arrival longText =
     (([longFinding], None), sampleScanner\<lparr>cache := [longText \<mapsto> [longFinding]]\<rparr>)"
proof -
  have "cache sampleScanner longText = None" "\<not> length longText < 10000"
    by (simp_all add: sampleScanner_eq longText_def)
  then show ?thesis
    by (simp add: Scan_def long_parallel) (simp add: sampleScanner_eq)
qed

section \<open>Offsets, values and the two paths\<close>

text \<open>
  Claim C1, as amended. Every finding of a successful \<open>Scan\<close> by a scanner that was built
  with \<open>New\<close>, \<open>AddPattern\<close> and \<open>Scan\<close> has \<open>0 \<le> StartIndex \<le> EndIndex \<le> len(input)\<close>, and
  \<open>EndIndex - StartIndex\<close> is the length of its value: the start is before the end
  exactly when the matched text is not empty.
\<close>

theorem Scan_offsets:
  assumes "reachable Compile s" and "Scan s ctx arrival t = ((results, None), s')"
    and "r \<in> set results"
  shows "0 \<le> StartIndex r \<and> StartIndex r \<le> EndIndex r \<and> EndIndex r \<le> int (length t) \<and>
         EndIndex r - StartIndex r = int (length (Value r)) \<and>
         (StartIndex r < EndIndex r \<longleftrightarrow> Value r \<noteq> [])"
proof -
  from Scan_inv [OF reachable_cache_ok [OF assms(1)] assms(2)] assms(3)
  have in_t: "finding_in t r" by blast
  from finding_in_length [OF in_t] have len: "EndIndex r - StartIndex r = int (length (Value r))" .
  have "0 < int (length (Value r)) \<longleftrightarrow> Value r \<noteq> []" by simp
  with len have "StartIndex r < EndIndex r \<longleftrightarrow> Value r \<noteq> []" by linarith
  with in_t len show ?thesis by (simp add: finding_in_def)
qed

text \<open>
  The claim as stated asks for \<open>StartIndex < EndIndex\<close>. The empty pattern compiles, and
  on the input \<open>ab\<close> the scan succeeds with a finding from 0 to 0.
\<close>

theorem Scan_offsets_counterexample:
  "reachable sampleCompile emptyScanner \<and>
   fst (Scan emptyScanner False id ''ab'') = ([emptyFinding], None) \<and>
   \<not> StartIndex emptyFinding < EndIndex emptyFinding"
  using reachable_emptyScanner empty_Scan_ab [of id] by (simp add: emptyFinding_def)

theorem Scan_offsets_witness:
  "reachable sampleCompile sampleScanner \<and>
   Scan sampleScanner False id sampleText =
     ((sampleFindings, None), sampleScanner\<lparr>cache := [sampleText \<mapsto> sampleFindings]\<rparr>) \<and>
   sampleFindings ! 0 \<in> set sampleFindings \<and>
   StartIndex (sampleFindings ! 0) = 4 \<and> EndIndex (sampleFindings ! 0) = 13 \<and>
   EndIndex (sampleFindings ! 0) \<le> int (length sampleText) \<and>
   EndIndex (sampleFindings ! 0) - StartIndex (sampleFindings ! 0)
     = int (length (Value (sampleFindings ! 0)))"
proof -
  have mem: "sampleFindings ! 0 \<in> set sampleFindings" by (simp add: sampleFindings_def)
  from Scan_offsets [OF reachable_sampleScanner sample_Scan [of id] mem]
  have "EndIndex (sampleFindings ! 0) \<le> int (length sampleText)"
    and "EndIndex (sampleFindings ! 0) - StartIndex (sampleFindings ! 0)
           = int (length (Value (sampleFindings ! 0)))"
    by simp_all
  moreover have "StartIndex (sampleFindings ! 0) = 4" "EndIndex (sampleFindings ! 0) = 13"
    by (simp_all add: sampleFindings_def)
  ultimately show ?thesis using reachable_sampleScanner sample_Scan [of id] mem by simp
qed

text \<open>
  Claim C10. The value of every finding of a successful \<open>Scan\<close>, on the direct and on the
  parallel path and from the cache, is the input between the finding's offsets, which
  lie within the input.
\<close>

theorem Scan_value:
  assumes "reachable Compile s" and "Scan s ctx arrival t = ((results, None), s')"
    and "r \<in> set results"
  shows "Value r = slice t (nat (StartIndex r)) (nat (EndIndex r)) \<and>
         nat (StartIndex r) \<le> nat (EndIndex r) \<and> nat (EndIndex r) \<le> length t"
proof -
  from Scan_inv [OF reachable_cache_ok [OF assms(1)] assms(2)] assms(3)
  have "finding_in t r" by blast
  then show ?thesis by (auto simp: finding_in_def)
qed

theorem Scan_value_witness:
  "reachable sampleCompile sampleScanner \<and>
   fst (Scan sampleScanner False id sampleText) = (sampleFindings, None) \<and>
   sampleFindings ! 1 \<in> set sampleFindings \<and>
   Value (sampleFindings ! 1) = ''secret'' \<and>
   slice sampleText (nat (StartIndex (sampleFindings ! 1))) (nat (EndIndex (sampleFindings ! 1)))
     = ''secret'' \<and>
   \<not> length longText < 10000 \<and>
   fst (Scan sampleScanner False id longText) = ([longFinding], None) \<and>
   Value longFinding = ''secret123'' \<and>
   slice longText 10000 10009 = ''secret123''"
proof -
  have mem: "sampleFindings ! 1 \<in> set sampleFindings" by (simp add: sampleFindings_def)
  have v: "Value (sampleFindings ! 1) = ''secret''" by (simp add: sampleFindings_def)
  from Scan_value [OF reachable_sampleScanner sample_Scan [of id] mem] v
  have direct: "slice sampleText (nat (StartIndex (sampleFindings ! 1)))
      (nat (EndIndex (sampleFindings ! 1))) = ''secret''"
    by simp
  have lv: "Value longFinding = ''secret123''" "nat (StartIndex longFinding) = 10000"
    "nat (EndIndex longFinding) = 10009"
    by (simp_all add: longFinding_def)
  from Scan_value [OF reachable_sampleScanner long_Scan [of id], of longFinding] lv
  have parallel: "slice longText 10000 10009 = ''secret123''" by simp
  have "\<not> length longText < 10000" by (simp add: longText_def)
  with reachable_sampleScanner sample_Scan [of id] long_Scan [of id] mem v direct lv parallel
  show ?thesis by simp
qed




section \<open>Entropy and likelihood: proofs\<close>

lemma log2_half: "log 2 (1 / 2) = - 1"
  by (simp add: log_divide)

lemma runes_e_acute: "runes [CHR 0xC3, CHR 0xA9] = [233]"
  by (simp add: runes_def cont_def)

lemma charCount_e_acute: "charCount [CHR 0xC3, CHR 0xA9] = [(233, 1)]"
  by (simp add: charCount_def runes_e_acute increment_def)

lemma entropy_e_acute: "CalculateEntropy [CHR 0xC3, CHR 0xA9] = 1 / 2"
  by (simp add: CalculateEntropy_def charCount_e_acute log2_half)

lemma shannon_single: "shannon_spec [c] = 0"
  by (simp add: shannon_spec_def)

lemma runes_pw: "runes ''MyP@ssw0rd123!'' = [77, 121, 80, 64, 115, 115, 119, 48, 114, 100, 49, 50, 51, 33]"
  by (simp add: runes_def)

lemma charCount_pw: "charCount ''MyP@ssw0rd123!'' =
  [(77, 1), (121, 1), (80, 1), (64, 1), (115, 2), (119, 1), (48, 1),
   (114, 1), (100, 1), (49, 1), (50, 1), (51, 1), (33, 1)]"
  by (simp add: charCount_def runes_pw increment_def)

lemma log2_7: "11 / 4 \<le> log 2 7"
proof -
  have "log 2 ((2::real) ^ 11) = 11" by (subst log_nat_power) simp_all
  moreover have "log 2 ((2::real) ^ 11) \<le> log 2 (7 ^ 4)" by (subst log_le_cancel_iff) simp_all
  moreover have "log 2 ((7::real) ^ 4) = 4 * log 2 7" by (subst log_nat_power) simp_all
  ultimately show ?thesis by simp
qed

lemma entropy_pw: "CalculateEntropy ''MyP@ssw0rd123!'' = 6 / 7 + log 2 7"
proof -
  have a: "log 2 (1 / 14) = - (1 + log 2 7)"
  proof -
    have "log 2 (1 / 14) = - log 2 (2 * 7)" by (simp add: log_divide)
    also have "log 2 (2 * 7) = 1 + log 2 7" by (subst log_mult) simp_all
    finally show ?thesis .
  qed
  have b: "log 2 (1 / 7) = - log 2 7"
    by (simp add: log_divide)
  show ?thesis
    by (simp add: CalculateEntropy_def charCount_pw a b) (simp add: field_simps)
qed

lemma entropy_pw_bound: "\<not> CalculateEntropy ''MyP@ssw0rd123!'' < 3.5"
  using log2_7 by (simp add: entropy_pw)

lemma entropy_a10: "CalculateEntropy ''aaaaaaaaaa'' = 0"
proof -
  have "charCount ''aaaaaaaaaa'' = [(97, 10)]"
    by (simp add: charCount_def runes_def increment_def)
  then show ?thesis by (simp add: CalculateEntropy_def)
qed

lemma entropy_mixed: "CalculateEntropy ''aB3$xK9#mP'' = log 2 10"
proof -
  have "charCount ''aB3$xK9#mP'' =
     [(97, 1), (66, 1), (51, 1), (36, 1), (120, 1), (75, 1), (57, 1), (35, 1), (109, 1), (80, 1)]"
    by (simp add: charCount_def runes_def increment_def)
  moreover have "log 2 (1 / 10) = - log 2 10" by (simp add: log_divide)
  ultimately show ?thesis by (simp add: CalculateEntropy_def)
qed

subsection \<open>What \<open>CalculateEntropy\<close> computes\<close>

lemma runesOf_ascii: "\<forall>b \<in> set bs. b < 128 \<Longrightarrow> runesOf bs = bs"
  by (induction bs) simp_all

lemma runes_ascii: "\<forall>c \<in> set s. of_char c < (128::nat) \<Longrightarrow> runes s = map of_char s"
  by (simp add: runes_def runesOf_ascii)

lemma increment_map_of:
  "map_of (increment c al) = (map_of al)(c \<mapsto> (case map_of al c of None \<Rightarrow> 0 | Some n \<Rightarrow> n) + 1)"
  by (simp add: increment_def update_conv')

lemma increment_distinct: "distinct (map fst al) \<Longrightarrow> distinct (map fst (increment c al))"
  by (simp add: increment_def distinct_update)

lemma fold_increment_distinct:
  "distinct (map fst al) \<Longrightarrow> distinct (map fst (fold increment rs al))"
  by (induction rs arbitrary: al) (simp_all add: increment_distinct)

lemma fold_increment_map_of:
  "map_of (fold increment rs al) c =
     (if c \<in> set rs \<or> c \<in> dom (map_of al)
      then Some (count_list rs c + (case map_of al c of None \<Rightarrow> 0 | Some n \<Rightarrow> n))
      else None)"
proof (induction rs arbitrary: al)
  case Nil
  show ?case by (auto split: option.splits)
next
  case (Cons r rs)
  show ?case
    by (simp add: Cons.IH increment_map_of) (auto split: option.splits)
qed

lemma charCount_distinct: "distinct (map fst (charCount s))"
  by (simp add: charCount_def fold_increment_distinct)

lemma charCount_map_of:
  "map_of (charCount s) c =
     (if c \<in> set (runes s) then Some (count_list (runes s) c) else None)"
  by (simp add: charCount_def fold_increment_map_of)

lemma charCount_keys: "fst ` set (charCount s) = set (runes s)"
proof -
  have "fst ` set (charCount s) = dom (map_of (charCount s))"
    by (simp add: dom_map_of_conv_image_fst)
  also have "\<dots> = set (runes s)"
    by (auto simp: charCount_map_of dom_def)
  finally show ?thesis .
qed

lemma fold_minus: "fold (\<lambda>(c, n) e. e - g n) al (e0 :: real) = e0 - (\<Sum>(c, n) \<leftarrow> al. g n)"
  by (induction al arbitrary: e0) (auto simp: algebra_simps)

lemma sum_list_alist:
  assumes "distinct (map fst al)"
  shows "(\<Sum>(c, n) \<leftarrow> al. g n) = (\<Sum>c \<in> fst ` set al. (g (the (map_of al c)) :: real))"
proof -
  from assms have d: "distinct al" and inj: "inj_on fst (set al)"
    by (simp_all add: distinct_map)
  have "(\<Sum>(c, n) \<leftarrow> al. g n) = (\<Sum>p \<in> set al. g (snd p))"
    using d by (simp add: sum_list_distinct_conv_sum_set case_prod_unfold)
  also have "\<dots> = (\<Sum>p \<in> set al. g (the (map_of al (fst p))))"
    using assms by (intro sum.cong) auto
  also have "\<dots> = (\<Sum>c \<in> fst ` set al. g (the (map_of al c)))"
    using inj by (simp add: sum.reindex)
  finally show ?thesis .
qed

lemma CalculateEntropy_sum:
  "CalculateEntropy s =
     (\<Sum>c \<in> set (runes s).
        - (real (count_list (runes s) c) / real (length s))
          * log 2 (real (count_list (runes s) c) / real (length s)))"
proof (cases "s = []")
  case True
  then show ?thesis by (simp add: CalculateEntropy_def runes_def)
next
  case False
  let ?g = "\<lambda>n. (real n / real (length s)) * log 2 (real n / real (length s))"
  have "CalculateEntropy s = fold (\<lambda>(c, n) e. e - ?g n) (charCount s) 0"
    using False by (simp add: CalculateEntropy_def)
  also have "\<dots> = - (\<Sum>(c, n) \<leftarrow> charCount s. ?g n)"
    by (simp only: fold_minus)
  also have "(\<Sum>(c, n) \<leftarrow> charCount s. ?g n)
      = (\<Sum>c \<in> fst ` set (charCount s). ?g (the (map_of (charCount s) c)))"
    by (rule sum_list_alist [OF charCount_distinct])
  also have "\<dots> = (\<Sum>c \<in> set (runes s). ?g (count_list (runes s) c))"
    by (simp add: charCount_keys charCount_map_of)
  finally show ?thesis by (simp add: sum_negf)
qed

lemma CalculateEntropy_ascii:
  assumes "\<forall>c \<in> set s. of_char c < (128::nat)"
  shows "CalculateEntropy s = shannon_spec (runes s)"
proof -
  have "length (runes s) = length s" by (simp add: runes_ascii [OF assms])
  then show ?thesis by (simp add: CalculateEntropy_sum shannon_spec_def)
qed

subsection \<open>Rounded arithmetic\<close>

text \<open>
  Without rounding, \<open>CalculateEntropy64\<close> is \<open>CalculateEntropy\<close>, whatever the order of the
  visit. With rounding within the bounds of \<open>float64_ok\<close>, each term of the sum and each
  partial sum stays within 1/1000 of what it rounds, in every order of the visit; for
  \<open>MyP@ssw0rd123!\<close>, whose entropy is about 3.66, the computed value stays above 3.5.
\<close>

lemma float64_ok_rnd:
  "float64_ok rt \<Longrightarrow> 1 / 100 \<le> \<bar>x\<bar> \<Longrightarrow> \<bar>x\<bar> \<le> 100 \<Longrightarrow> \<bar>rnd rt x - x\<bar> \<le> \<bar>x\<bar> / 1000"
  unfolding float64_ok_def by blast

lemma float64_ok_rnd_mul:
  "float64_ok rt \<Longrightarrow> 1 / 100 \<le> \<bar>x\<bar> \<Longrightarrow> \<bar>x\<bar> \<le> 100 \<Longrightarrow> \<bar>rnd_mul rt x - x\<bar> \<le> \<bar>x\<bar> / 1000"
  unfolding float64_ok_def by blast

lemma float64_ok_Log2:
  "float64_ok rt \<Longrightarrow> 1 / 100 \<le> x \<Longrightarrow> x \<le> 1 \<Longrightarrow> \<bar>Log2 rt x - log 2 x\<bar> \<le> 1 / 1000"
  unfolding float64_ok_def by blast

lemma rnd_pos:
  assumes "float64_ok rt" "1 / 100 \<le> x" "x \<le> 100"
  shows "x * (999 / 1000) \<le> rnd rt x \<and> rnd rt x \<le> x * (1001 / 1000)"
proof -
  have "\<bar>rnd rt x - x\<bar> \<le> \<bar>x\<bar> / 1000"
    using assms by (intro float64_ok_rnd) simp_all
  with assms(2) show ?thesis by linarith
qed

lemma rnd_mul_neg:
  assumes "float64_ok rt" "x \<le> - (1 / 100)" "- 100 \<le> x"
  shows "x * (1001 / 1000) \<le> rnd_mul rt x \<and> rnd_mul rt x \<le> x * (999 / 1000)"
proof -
  have "\<bar>rnd_mul rt x - x\<bar> \<le> \<bar>x\<bar> / 1000"
    using assms by (intro float64_ok_rnd_mul) simp_all
  with assms(2) show ?thesis by linarith
qed

lemma Log2_bounds:
  assumes "float64_ok rt" "1 / 100 \<le> x" "x \<le> 1"
  shows "log 2 x - 1 / 1000 \<le> Log2 rt x \<and> Log2 rt x \<le> log 2 x + 1 / 1000"
proof -
  have "\<bar>Log2 rt x - log 2 x\<bar> \<le> 1 / 1000"
    using assms by (intro float64_ok_Log2) simp_all
  then show ?thesis by linarith
qed

lemma log2_upper:
  assumes "0 < x" "x \<le> q" "q ^ 5 \<le> 1 / 2 ^ k"
  shows "log 2 x \<le> - (real k / 5)"
proof -
  from assms have q: "0 < q" by simp
  have "log 2 x \<le> log 2 q" using assms q by simp
  moreover have "5 * log 2 q = log 2 (q ^ 5)" using q by (simp add: log_nat_power)
  moreover have "log 2 (q ^ 5) \<le> log 2 (1 / 2 ^ k)"
    using q assms(3) by (subst log_le_cancel_iff) simp_all
  moreover have "log 2 (1 / 2 ^ k) = - real k"
    by (simp add: log_divide log_nat_power)
  ultimately show ?thesis by simp
qed

lemma log2_lower:
  assumes "1 / 2 ^ k \<le> x"
  shows "- real k \<le> log 2 x"
proof -
  have p: "(0::real) < 1 / 2 ^ k" by simp
  with assms have x: "0 < x" by linarith
  have "log 2 (1 / 2 ^ k) = - real k"
    by (simp add: log_divide log_nat_power)
  moreover have "log 2 (1 / 2 ^ k) \<le> log 2 x"
    using p x assms by (subst log_le_cancel_iff) simp_all
  ultimately show ?thesis by simp
qed

lemma prod_bounds:
  fixes f L :: real
  assumes "0 \<le> fl" "fl \<le> f" "f \<le> fu" "ll \<le> L" "L \<le> lu" "lu \<le> 0"
  shows "fu * ll \<le> f * L \<and> f * L \<le> fl * lu"
proof
  have "fu * ll \<le> f * ll" using assms by (intro mult_right_mono_neg) simp_all
  also have "\<dots> \<le> f * L" using assms by (intro mult_left_mono) simp_all
  finally show "fu * ll \<le> f * L" .
  have "f * L \<le> f * lu" using assms by (intro mult_left_mono) simp_all
  also have "\<dots> \<le> fl * lu" using assms by (intro mult_right_mono_neg) simp_all
  finally show "f * L \<le> fl * lu" .
qed

lemma term_bounds:
  assumes ok: "float64_ok rt"
    and p: "1 / 50 \<le> p" "p \<le> 1 / 2"
    and up: "(p * (1001 / 1000)) ^ 5 \<le> 1 / 2 ^ k"
    and low: "1 / 2 ^ j \<le> p * (999 / 1000)"
    and k: "5 \<le> k"
    and r1: "1 / 100 \<le> p * (999 / 1000) * (real k / 5 - 1 / 1000)"
    and r2: "p * (1001 / 1000) * (real j + 1 / 1000) \<le> 100"
  shows "rnd_mul rt (rnd rt p * Log2 rt (rnd rt p))
           \<le> - (p * (999 / 1000) * (real k / 5 - 1 / 1000) * (999 / 1000))"
    and "- (p * (1001 / 1000) * (real j + 1 / 1000) * (1001 / 1000))
           \<le> rnd_mul rt (rnd rt p * Log2 rt (rnd rt p))"
proof -
  define f where "f = rnd rt p"
  define L where "L = Log2 rt f"
  define A where "A = p * (999 / 1000) * (real k / 5 - 1 / 1000)"
  define B where "B = p * (1001 / 1000) * (real j + 1 / 1000)"
  have f: "p * (999 / 1000) \<le> f" "f \<le> p * (1001 / 1000)"
    using rnd_pos [OF ok, of p] p by (simp_all add: f_def)
  have f0: "0 < f" "1 / 100 \<le> f" "f \<le> 1" using f p by simp_all
  have lg: "log 2 f \<le> - (real k / 5)" "- real j \<le> log 2 f"
    using log2_upper [OF f0(1) f(2) up] log2_lower [of j f] low f(1) by simp_all
  have L: "- (real j + 1 / 1000) \<le> L" "L \<le> - (real k / 5 - 1 / 1000)"
    using Log2_bounds [OF ok f0(2) f0(3)] lg by (simp_all add: L_def)
  have neg: "- (real k / 5 - 1 / 1000) \<le> 0" using k by simp
  have fl: "0 \<le> p * (999 / 1000)" using p by simp
  have pr: "- B \<le> f * L" "f * L \<le> - A"
    using prod_bounds [OF fl f(1) f(2) L(1) L(2) neg]
    by (simp_all only: A_def B_def mult_minus_right)
  have AB: "1 / 100 \<le> A" "B \<le> 100"
    using r1 r2 by (simp_all only: A_def B_def)
  have rng: "f * L \<le> - (1 / 100)" "- 100 \<le> f * L"
    using pr AB by linarith+
  have m: "f * L * (1001 / 1000) \<le> rnd_mul rt (f * L)"
          "rnd_mul rt (f * L) \<le> f * L * (999 / 1000)"
    using rnd_mul_neg [OF ok rng] by simp_all
  have "rnd_mul rt (f * L) \<le> - (A * (999 / 1000))"
    using m(2) pr(2) by linarith
  then show "rnd_mul rt (rnd rt p * Log2 rt (rnd rt p))
           \<le> - (p * (999 / 1000) * (real k / 5 - 1 / 1000) * (999 / 1000))"
    by (simp only: A_def f_def L_def)
  have "- (B * (1001 / 1000)) \<le> rnd_mul rt (f * L)"
    using m(1) pr(1) by linarith
  then show "- (p * (1001 / 1000) * (real j + 1 / 1000) * (1001 / 1000))
           \<le> rnd_mul rt (rnd rt p * Log2 rt (rnd rt p))"
    by (simp only: B_def f_def L_def)
qed

lemma term_1_14:
  assumes "float64_ok rt"
  shows "rnd_mul rt (rnd rt (1 / 14) * Log2 rt (rnd rt (1 / 14))) \<le> - (2708 / 10000)"
    and "- (6 / 10) \<le> rnd_mul rt (rnd rt (1 / 14) * Log2 rt (rnd rt (1 / 14)))"
proof -
  have up: "((1 / 14 :: real) * (1001 / 1000)) ^ 5 \<le> 1 / 2 ^ 19"
    by (simp add: power_divide)
  show "rnd_mul rt (rnd rt (1 / 14) * Log2 rt (rnd rt (1 / 14))) \<le> - (2708 / 10000)"
    and "- (6 / 10) \<le> rnd_mul rt (rnd rt (1 / 14) * Log2 rt (rnd rt (1 / 14)))"
    using term_bounds [OF assms _ _ up, of 4] by simp_all
qed

lemma term_2_14:
  assumes "float64_ok rt"
  shows "rnd_mul rt (rnd rt (1 / 7) * Log2 rt (rnd rt (1 / 7))) \<le> - (399 / 1000)"
    and "- (6 / 10) \<le> rnd_mul rt (rnd rt (1 / 7) * Log2 rt (rnd rt (1 / 7)))"
proof -
  have up: "((1 / 7 :: real) * (1001 / 1000)) ^ 5 \<le> 1 / 2 ^ 14"
    by (simp add: power_divide)
  show "rnd_mul rt (rnd rt (1 / 7) * Log2 rt (rnd rt (1 / 7))) \<le> - (399 / 1000)"
    and "- (6 / 10) \<le> rnd_mul rt (rnd rt (1 / 7) * Log2 rt (rnd rt (1 / 7)))"
    using term_bounds [OF assms _ _ up, of 3] by simp_all
qed

lemma sum_list_insort_key:
  "sum_list (map g (insort_key f x xs)) = (g x :: real) + sum_list (map g xs)"
  by (induction xs) simp_all

lemma sum_list_sort_key:
  "sum_list (map g (sort_key f xs)) = (sum_list (map g xs) :: real)"
  by (induction xs) (simp_all add: sum_list_insort_key)

lemma fold_round_lower:
  fixes m lo :: "'e \<Rightarrow> real"
  assumes r: "\<And>x. 1 / 100 \<le> x \<Longrightarrow> x \<le> 100 \<Longrightarrow> x * (999 / 1000) \<le> r x \<and> r x \<le> x * (1001 / 1000)"
    and m: "\<And>e. e \<in> set es \<Longrightarrow> m e \<le> - lo e \<and> - (6 / 10) \<le> m e \<and> 1 / 4 \<le> lo e"
    and acc: "0 \<le> acc" "acc \<le> 20 - real (length es)"
  shows "(999 / 1000) ^ length es * (acc + sum_list (map lo es))
           \<le> fold (\<lambda>e acc. r (acc - m e)) es acc"
  using m acc
proof (induction es arbitrary: acc)
  case Nil
  then show ?case by simp
next
  case (Cons e es)
  let ?x = "acc - m e"
  let ?S = "sum_list (map lo es)"
  have e: "m e \<le> - lo e" "- (6 / 10) \<le> m e" "1 / 4 \<le> lo e"
    using Cons.prems(1) [of e] by simp_all
  have len: "acc \<le> 19 - real (length es)" using Cons.prems(3) by simp
  have x: "1 / 100 \<le> ?x" "?x \<le> 100" using e Cons.prems(2) len by linarith+
  have rx: "?x * (999 / 1000) \<le> r ?x" "r ?x \<le> ?x * (1001 / 1000)"
    using r [OF x] by simp_all
  have n0: "0 \<le> real (length es)" by simp
  have acc19: "acc \<le> 19" using len n0 by linarith
  have "r ?x \<le> (acc + 6 / 10) * (1001 / 1000)"
    using rx(2) e(2) by (simp add: algebra_simps)
  also have "\<dots> \<le> acc + 1" using acc19 by (simp add: algebra_simps)
  finally have up: "r ?x \<le> acc + 1" .
  have acc1: "0 \<le> r ?x" "r ?x \<le> 20 - real (length es)"
  proof -
    show "0 \<le> r ?x" using rx(1) x(1) by (simp add: algebra_simps)
    show "r ?x \<le> 20 - real (length es)" using up len by linarith
  qed
  have S: "0 \<le> ?S"
  proof (rule sum_list_nonneg)
    fix y assume "y \<in> set (map lo es)"
    then obtain e' where "e' \<in> set es" "y = lo e'" by auto
    with Cons.prems(1) [of e'] show "0 \<le> y" by simp
  qed
  have IH: "(999 / 1000) ^ length es * (r ?x + ?S) \<le> fold (\<lambda>e acc. r (acc - m e)) es (r ?x)"
    using Cons.prems(1) acc1 by (intro Cons.IH) simp_all
  have "(999 / 1000) * (acc + (lo e + ?S)) \<le> r ?x + ?S"
    using rx(1) e(1) S by (simp add: algebra_simps)
  then have step: "(999 / 1000) ^ length es * ((999 / 1000) * (acc + (lo e + ?S)))
               \<le> (999 / 1000) ^ length es * (r ?x + ?S)"
    by (intro mult_left_mono) simp_all
  have "(999 / 1000) ^ length (e # es) * (acc + sum_list (map lo (e # es)))
          = (999 / 1000) ^ length es * ((999 / 1000) * (acc + (lo e + ?S)))"
    by simp
  also note step
  also note IH
  also have "fold (\<lambda>e acc. r (acc - m e)) es (r ?x) = fold (\<lambda>e acc. r (acc - m e)) (e # es) acc"
    by simp
  finally show ?case .
qed

lemma entropy64_pw:
  assumes ok: "float64_ok rt"
  shows "7 / 2 \<le> CalculateEntropy64 rt ''MyP@ssw0rd123!''"
proof -
  define al :: "(nat \<times> nat) list" where
    "al = [(77, 1), (121, 1), (80, 1), (64, 1), (115, 2), (119, 1), (48, 1),
           (114, 1), (100, 1), (49, 1), (50, 1), (51, 1), (33, 1)]"
  define m :: "nat \<times> nat \<Rightarrow> real" where
    "m = (\<lambda>e. rnd_mul rt (rnd rt (real (snd e) / 14) * Log2 rt (rnd rt (real (snd e) / 14))))"
  define lo :: "nat \<times> nat \<Rightarrow> real" where
    "lo = (\<lambda>e. if snd e = 2 then 399 / 1000 else 2708 / 10000)"
  let ?es = "sort_key (visit rt) al"
  have val: "CalculateEntropy64 rt ''MyP@ssw0rd123!'' = fold (\<lambda>e acc. rnd rt (acc - m e)) ?es 0"
    by (simp add: CalculateEntropy64_def charCount_pw al_def m_def case_prod_unfold Let_def)
  have bounds: "m e \<le> - lo e \<and> - (6 / 10) \<le> m e \<and> 1 / 4 \<le> lo e" if "e \<in> set ?es" for e
  proof -
    from that have "e \<in> set al" by simp
    then have "snd e = 1 \<or> snd e = 2" by (auto simp: al_def)
    then show ?thesis
    proof
      assume "snd e = 1"
      then show ?thesis using term_1_14 [OF ok] by (simp add: m_def lo_def)
    next
      assume "snd e = 2"
      then show ?thesis using term_2_14 [OF ok] by (simp add: m_def lo_def)
    qed
  qed
  have len: "length ?es = 13" by (simp add: al_def)
  have "(999 / 1000) ^ length ?es * (0 + sum_list (map lo ?es))
          \<le> fold (\<lambda>e acc. rnd rt (acc - m e)) ?es 0"
    by (rule fold_round_lower [OF rnd_pos [OF ok] bounds]) (simp_all add: al_def)
  moreover have "sum_list (map lo ?es) = 12 * (2708 / 10000) + 399 / 1000"
    by (simp only: sum_list_sort_key) (simp add: al_def lo_def)
  moreover have "(7 / 2 :: real) \<le> (999 / 1000) ^ 13 * (0 + (12 * (2708 / 10000) + 399 / 1000))"
    by (simp add: power_divide)
  ultimately show ?thesis by (simp only: val len)
qed

lemma CalculateEntropy64_exact:
  assumes "rnd rt = (\<lambda>x. x)" "rnd_mul rt = (\<lambda>x. x)" "Log2 rt = log 2"
  shows "CalculateEntropy64 rt s = CalculateEntropy s"
proof -
  let ?g = "\<lambda>n. (real n / real (length s)) * log 2 (real n / real (length s))"
  have "fold (\<lambda>(c, n) e. e - ?g n) (sort_key (visit rt) (charCount s)) 0
         = fold (\<lambda>(c, n) e. e - ?g n) (charCount s) 0"
    by (simp only: fold_minus sum_list_sort_key)
  then show ?thesis
    by (simp add: CalculateEntropy64_def CalculateEntropy_def assms Let_def)
qed

lemma float64_ok_exact: "float64_ok exact_runtime"
  by (simp add: float64_ok_def exact_runtime_def)

lemma entropy64_e_acute:
  assumes "rnd rt (1 / 2) = 1 / 2" "Log2 rt (1 / 2) = - 1" "rnd_mul rt (- (1 / 2)) = - (1 / 2)"
  shows "CalculateEntropy64 rt [CHR 0xC3, CHR 0xA9] = 1 / 2"
  by (simp add: CalculateEntropy64_def charCount_e_acute assms)

subsection \<open>The arithmetic of 53 significant bits\<close>

text \<open>
  \<open>round64\<close> is within \<open>2\<^sup>-\<^sup>5\<^sup>3\<close> of what it rounds, relatively, and leaves a power of 2
  as it is; \<open>binary64\<close> is within the bounds of \<open>float64_ok\<close>.
\<close>

lemma nearest_even_error: "\<bar>of_int (nearest_even y) - y\<bar> \<le> 1 / 2"
proof -
  have "of_int \<lfloor>y\<rfloor> \<le> y" "y < of_int \<lfloor>y\<rfloor> + 1" by linarith+
  then show ?thesis by (auto simp: nearest_even_def Let_def)
qed

lemma nearest_even_int: "nearest_even (of_int k) = k"
  by (simp add: nearest_even_def)

lemma ulp_pos: "0 < ulp x"
  by (simp add: ulp_def)

lemma ulp_le:
  assumes "x \<noteq> 0"
  shows "ulp x \<le> \<bar>x\<bar> / 2 ^ 52"
proof -
  have "of_int (exponent x) \<le> log 2 \<bar>x\<bar>" by (simp add: exponent_def)
  then have "2 powr of_int (exponent x) \<le> \<bar>x\<bar>"
    using assms by (subst (asm) le_log_iff) simp_all
  moreover have "ulp x = 2 powr of_int (exponent x) / 2 ^ 52"
    by (simp add: ulp_def powr_diff powr_realpow [symmetric])
  ultimately show ?thesis by (simp add: divide_right_mono)
qed

lemma round64_error: "\<bar>round64 x - x\<bar> \<le> \<bar>x\<bar> / 2 ^ 53"
proof (cases "x = 0")
  case True
  then show ?thesis by (simp add: round64_def)
next
  case False
  let ?u = "ulp x"
  let ?y = "x / ?u"
  have u: "0 < ?u" by (rule ulp_pos)
  have "round64 x - x = (of_int (nearest_even ?y) - ?y) * ?u"
    using False u by (simp add: round64_def algebra_simps)
  then have "\<bar>round64 x - x\<bar> = \<bar>of_int (nearest_even ?y) - ?y\<bar> * ?u"
    using u by (simp add: abs_mult)
  also have "\<dots> \<le> (1 / 2) * ?u"
    using nearest_even_error [of ?y] u by (intro mult_right_mono) simp_all
  also have "\<dots> \<le> (1 / 2) * (\<bar>x\<bar> / 2 ^ 52)"
    using ulp_le [OF False] by (intro mult_left_mono) simp_all
  also have "\<dots> = \<bar>x\<bar> / 2 ^ 53" by simp
  finally show ?thesis .
qed

lemma round64_pow2:
  "round64 (2 powr of_int k) = 2 powr of_int k" "round64 (- (2 powr of_int k)) = - (2 powr of_int k)"
proof -
  have e: "exponent (2 powr of_int k) = k" "exponent (- (2 powr of_int k)) = k"
    by (simp_all add: exponent_def)
  have u: "ulp (2 powr of_int k) = 2 powr of_int k / 2 ^ 52"
          "ulp (- (2 powr of_int k)) = 2 powr of_int k / 2 ^ 52"
    by (simp_all add: ulp_def e powr_diff powr_realpow [symmetric])
  have q: "2 powr of_int k / (2 powr of_int k / 2 ^ 52) = (of_int (2 ^ 52) :: real)"
    by simp
  have q': "- (2 powr of_int k) / (2 powr of_int k / 2 ^ 52) = (of_int (- (2 ^ 52)) :: real)"
    by simp
  show "round64 (2 powr of_int k) = 2 powr of_int k"
    unfolding round64_def u q nearest_even_int by simp
  show "round64 (- (2 powr of_int k)) = - (2 powr of_int k)"
    unfolding round64_def u q' nearest_even_int by simp
qed

lemma round64_half: "round64 (1 / 2) = 1 / 2" "round64 (- (1 / 2)) = - (1 / 2)" "round64 (- 1) = - 1"
  using round64_pow2 [of "- 1"] round64_pow2 [of 0] by (simp_all add: powr_minus)

lemma float64_ok_binary64: "float64_ok (binary64 order)"
proof -
  have r: "\<bar>round64 x - x\<bar> \<le> \<bar>x\<bar> / 1000" for x
  proof -
    have "\<bar>x\<bar> / 2 ^ 53 \<le> \<bar>x\<bar> / 1000" by (intro divide_left_mono) simp_all
    with round64_error [of x] show ?thesis by linarith
  qed
  have l: "\<bar>round64 (log 2 x) - log 2 x\<bar> \<le> 1 / 1000" if "1 / 100 \<le> x" "x \<le> 1" for x
  proof -
    have "- 7 \<le> log 2 x" using log2_lower [of 7 x] that by simp
    moreover have "log 2 x \<le> 0" using that by (simp add: log_le_zero_cancel_iff)
    ultimately have "\<bar>log 2 x\<bar> \<le> 7" by simp
    then have "\<bar>log 2 x\<bar> / 2 ^ 53 \<le> 7 / 2 ^ 53" by (intro divide_right_mono) simp_all
    also have "\<dots> \<le> (1 / 1000 :: real)" by simp
    finally show ?thesis using round64_error [of "log 2 x"] by linarith
  qed
  show ?thesis
    unfolding float64_ok_def binary64_def runtime.select_convs
    using r l by blast
qed

subsection \<open>The likelihood verdict\<close>

lemma ToLower_password: "ToLower unicodeLower ''password'' = ''password''"
  by (simp add: ToLower_def lowerByte_def)

lemma ToLower_pw: "ToLower unicodeLower ''MyP@ssw0rd123!'' = ''myp@ssw0rd123!''"
  by (simp add: ToLower_def lowerByte_def char_of_eq_iff)

lemma characterTypes_pw: "characterTypes ''MyP@ssw0rd123!'' = 4"
  by (simp add: characterTypes_def ContainsAny_def)

lemma ToLower_PASSWORD: "ToLower unicodeLower ''PASSWORD'' = ''password''"
  by (simp add: ToLower_def lowerByte_def char_of_eq_iff)

lemma char_of_image_iff:
  assumes "j \<le> 256"
  shows "c \<in> char_of ` {i..<j::nat} \<longleftrightarrow> i \<le> (of_char c :: nat) \<and> (of_char c :: nat) < j"
proof
  assume "c \<in> char_of ` {i..<j}"
  then obtain n :: nat where n: "i \<le> n" "n < j" "c = char_of n" by auto
  from n(2) assms have "of_char (char_of n :: char) = n" by simp
  with n show "i \<le> (of_char c :: nat) \<and> (of_char c :: nat) < j" by simp
next
  assume "i \<le> (of_char c :: nat) \<and> (of_char c :: nat) < j"
  then have "char_of (of_char c :: nat) \<in> char_of ` {i..<j}"
    by (intro imageI) simp
  then show "c \<in> char_of ` {i..<j}" by simp
qed

lemma upper_list: "map char_of [65..<91::nat] = ''ABCDEFGHIJKLMNOPQRSTUVWXYZ''"
  by (simp add: char_of_eq_iff)

lemma lower_list: "map char_of [97..<123::nat] = ''abcdefghijklmnopqrstuvwxyz''"
  by (simp add: char_of_eq_iff)

lemma digit_list: "map char_of [48..<58::nat] = ''0123456789''"
  by (simp add: char_of_eq_iff)

lemma upper_iff:
  "c \<in> set ''ABCDEFGHIJKLMNOPQRSTUVWXYZ'' \<longleftrightarrow> 65 \<le> (of_char c :: nat) \<and> (of_char c :: nat) \<le> 90"
proof -
  have eq: "set ''ABCDEFGHIJKLMNOPQRSTUVWXYZ'' = char_of ` {65..<91::nat}"
    by (simp only: upper_list [symmetric] set_map set_upt)
  have "c \<in> char_of ` {65..<91::nat} \<longleftrightarrow> 65 \<le> (of_char c :: nat) \<and> (of_char c :: nat) < 91"
    by (rule char_of_image_iff) simp
  also have "\<dots> \<longleftrightarrow> 65 \<le> (of_char c :: nat) \<and> (of_char c :: nat) \<le> 90"
    by arith
  finally show ?thesis by (simp only: eq)
qed

lemma lower_iff:
  "c \<in> set ''abcdefghijklmnopqrstuvwxyz'' \<longleftrightarrow> 97 \<le> (of_char c :: nat) \<and> (of_char c :: nat) \<le> 122"
proof -
  have eq: "set ''abcdefghijklmnopqrstuvwxyz'' = char_of ` {97..<123::nat}"
    by (simp only: lower_list [symmetric] set_map set_upt)
  have "c \<in> char_of ` {97..<123::nat} \<longleftrightarrow> 97 \<le> (of_char c :: nat) \<and> (of_char c :: nat) < 123"
    by (rule char_of_image_iff) simp
  also have "\<dots> \<longleftrightarrow> 97 \<le> (of_char c :: nat) \<and> (of_char c :: nat) \<le> 122"
    by arith
  finally show ?thesis by (simp only: eq)
qed

lemma digit_iff:
  "c \<in> set ''0123456789'' \<longleftrightarrow> 48 \<le> (of_char c :: nat) \<and> (of_char c :: nat) \<le> 57"
proof -
  have eq: "set ''0123456789'' = char_of ` {48..<58::nat}"
    by (simp only: digit_list [symmetric] set_map set_upt)
  have "c \<in> char_of ` {48..<58::nat} \<longleftrightarrow> 48 \<le> (of_char c :: nat) \<and> (of_char c :: nat) < 58"
    by (rule char_of_image_iff) simp
  also have "\<dots> \<longleftrightarrow> 48 \<le> (of_char c :: nat) \<and> (of_char c :: nat) \<le> 57"
    by arith
  finally show ?thesis by (simp only: eq)
qed

lemma characterTypes_classes:
  "characterTypes s =
     (if \<exists>c \<in> set s. 65 \<le> (of_char c :: nat) \<and> (of_char c :: nat) \<le> 90 then 1 else 0) +
     (if \<exists>c \<in> set s. 97 \<le> (of_char c :: nat) \<and> (of_char c :: nat) \<le> 122 then 1 else 0) +
     (if \<exists>c \<in> set s. 48 \<le> (of_char c :: nat) \<and> (of_char c :: nat) \<le> 57 then 1 else 0) +
     (if \<exists>c \<in> set s. c \<in> set ''!@#$%^&*()_+-=[]{}|;:,.<>?'' then 1 else 0)"
  unfolding characterTypes_def ContainsAny_def upper_iff lower_iff digit_iff ..

text \<open>
  Claim C6. \<open>IsLikelySecret\<close> holds exactly when the string has between 8 and 100 bytes,
  its lower-case form is none of \<open>password\<close>, \<open>secret\<close>, \<open>key\<close>, \<open>token\<close>, the entropy
  that \<open>CalculateEntropy\<close> returns for it, a \<open>float64\<close> value, is not below the threshold,
  and it has characters of at least 3 of the 4 classes: the upper-case letters \<open>A\<close> to \<open>Z\<close>
  (the bytes 65 to 90), the lower-case letters \<open>a\<close> to \<open>z\<close> (97 to 122), the digits \<open>0\<close> to
  \<open>9\<close> (48 to 57), and the characters of \<open>!@#$%^&*()_+-=[]{}|;:,.<>?\<close>.

  It is false for \<open>password\<close>, for \<open>PASSWORD\<close> and for every string of 6 bytes, at every
  threshold. It is true for \<open>MyP@ssw0rd123!\<close> at the threshold 3.5 on every runtime whose
  arithmetic is within the bounds of \<open>float64_ok\<close>, in every order of the visit of the map.
  It is false for \<open>aaaaaaaa\<close>, of one class, and for \<open>abcd1234\<close>, of two classes, at every
  threshold; for \<open>Abcd1234\<close>, of three classes, and for \<open>Password1!\<close>, of four classes and
  with a common word inside, it is true exactly when the entropy is not below the
  threshold.
\<close>

theorem IsLikelySecret_spec:
  "(IsLikelySecret rt unicodeLower s threshold \<longleftrightarrow>
      8 \<le> length s \<and> length s \<le> 100 \<and>
      ToLower unicodeLower s \<notin> {''password'', ''secret'', ''key'', ''token''} \<and>
      \<not> CalculateEntropy64 rt s < threshold \<and>
      3 \<le> (if \<exists>c \<in> set s. 65 \<le> (of_char c :: nat) \<and> (of_char c :: nat) \<le> 90 then 1 else 0) +
          (if \<exists>c \<in> set s. 97 \<le> (of_char c :: nat) \<and> (of_char c :: nat) \<le> 122 then 1 else 0) +
          (if \<exists>c \<in> set s. 48 \<le> (of_char c :: nat) \<and> (of_char c :: nat) \<le> 57 then 1 else 0) +
          (if \<exists>c \<in> set s. c \<in> set ''!@#$%^&*()_+-=[]{}|;:,.<>?'' then 1 else (0::nat))) \<and>
   \<not> IsLikelySecret rt unicodeLower ''password'' threshold \<and>
   \<not> IsLikelySecret rt unicodeLower ''PASSWORD'' threshold \<and>
   (length s = 6 \<longrightarrow> \<not> IsLikelySecret rt unicodeLower s threshold) \<and>
   (float64_ok rt \<longrightarrow> IsLikelySecret rt unicodeLower ''MyP@ssw0rd123!'' 3.5) \<and>
   \<not> IsLikelySecret rt unicodeLower ''aaaaaaaa'' threshold \<and>
   \<not> IsLikelySecret rt unicodeLower ''abcd1234'' threshold \<and>
   (IsLikelySecret rt unicodeLower ''Abcd1234'' threshold \<longleftrightarrow>
      \<not> CalculateEntropy64 rt ''Abcd1234'' < threshold) \<and>
   (IsLikelySecret rt unicodeLower ''Password1!'' threshold \<longleftrightarrow>
      \<not> CalculateEntropy64 rt ''Password1!'' < threshold)"
proof (intro conjI impI)
  show "IsLikelySecret rt unicodeLower s threshold \<longleftrightarrow>
      8 \<le> length s \<and> length s \<le> 100 \<and>
      ToLower unicodeLower s \<notin> {''password'', ''secret'', ''key'', ''token''} \<and>
      \<not> CalculateEntropy64 rt s < threshold \<and>
      3 \<le> (if \<exists>c \<in> set s. 65 \<le> (of_char c :: nat) \<and> (of_char c :: nat) \<le> 90 then 1 else 0) +
          (if \<exists>c \<in> set s. 97 \<le> (of_char c :: nat) \<and> (of_char c :: nat) \<le> 122 then 1 else 0) +
          (if \<exists>c \<in> set s. 48 \<le> (of_char c :: nat) \<and> (of_char c :: nat) \<le> 57 then 1 else 0) +
          (if \<exists>c \<in> set s. c \<in> set ''!@#$%^&*()_+-=[]{}|;:,.<>?'' then 1 else (0::nat))"
    unfolding IsLikelySecret_def commonWords_def characterTypes_classes [symmetric]
    by (simp only: list.set Bex_def) (auto simp: not_less)
  show "\<not> IsLikelySecret rt unicodeLower ''password'' threshold"
    by (simp add: IsLikelySecret_def commonWords_def ToLower_password)
  show "\<not> IsLikelySecret rt unicodeLower ''PASSWORD'' threshold"
    by (simp add: IsLikelySecret_def commonWords_def ToLower_PASSWORD)
  show "\<not> IsLikelySecret rt unicodeLower s threshold" if "length s = 6"
    using that by (simp add: IsLikelySecret_def)
  show "IsLikelySecret rt unicodeLower ''MyP@ssw0rd123!'' 3.5" if "float64_ok rt"
    using entropy64_pw [OF that]
    by (simp add: IsLikelySecret_def commonWords_def ToLower_pw characterTypes_pw)
  show "\<not> IsLikelySecret rt unicodeLower ''aaaaaaaa'' threshold"
    by (simp add: IsLikelySecret_def characterTypes_def ContainsAny_def)
  show "\<not> IsLikelySecret rt unicodeLower ''abcd1234'' threshold"
    by (simp add: IsLikelySecret_def characterTypes_def ContainsAny_def)
  show "IsLikelySecret rt unicodeLower ''Abcd1234'' threshold \<longleftrightarrow>
      \<not> CalculateEntropy64 rt ''Abcd1234'' < threshold"
    by (simp add: IsLikelySecret_def characterTypes_def ContainsAny_def commonWords_def
        ToLower_def lowerByte_def char_of_eq_iff)
  show "IsLikelySecret rt unicodeLower ''Password1!'' threshold \<longleftrightarrow>
      \<not> CalculateEntropy64 rt ''Password1!'' < threshold"
    by (simp add: IsLikelySecret_def characterTypes_def ContainsAny_def commonWords_def
        ToLower_def lowerByte_def char_of_eq_iff)
qed

theorem IsLikelySecret_spec_witness:
  "float64_ok (binary64 fst) \<and>
   IsLikelySecret (binary64 fst) id ''MyP@ssw0rd123!'' 3.5 \<and>
   float64_ok exact_runtime \<and>
   IsLikelySecret exact_runtime id ''MyP@ssw0rd123!'' 3.5 \<and>
   length ''abc123'' = 6 \<and> \<not> IsLikelySecret (binary64 fst) id ''abc123'' 3.5 \<and>
   \<not> IsLikelySecret (binary64 fst) id ''password'' 3.5"
  using IsLikelySecret_spec [of "binary64 fst" id "''abc123''" "3.5"]
    IsLikelySecret_spec [of exact_runtime id "''abc123''" "3.5"]
    float64_ok_binary64 [of fst] float64_ok_exact
  by simp

text \<open>
  Claim C5. \<open>CalculateEntropy\<close> counts runes and divides each count by the number of
  bytes, \<open>len(s)\<close>. For the string of the one character U+00E9, two bytes in UTF-8, it
  returns 1/2, while the Shannon entropy of a string of one character is 0.
\<close>

theorem CalculateEntropy_multibyte:
  "runes [CHR 0xC3, CHR 0xA9] = [233] \<and>
   CalculateEntropy [CHR 0xC3, CHR 0xA9] = 1 / 2 \<and>
   shannon_spec (runes [CHR 0xC3, CHR 0xA9]) = 0 \<and>
   CalculateEntropy [CHR 0xC3, CHR 0xA9] \<noteq> shannon_spec (runes [CHR 0xC3, CHR 0xA9])"
  by (simp add: runes_e_acute entropy_e_acute shannon_single)

text \<open>
  What \<open>CalculateEntropy\<close> computes: the sum of \<open>- p * log\<^sub>2 p\<close> over the distinct runes of
  the string, \<open>p\<close> the number of occurrences of the rune divided by the number of bytes
  of the string. For a string of ASCII bytes, where runes and bytes are the same, this is
  the Shannon entropy of the distribution of its characters. The entropy of the empty
  string is 0, and that of \<open>aaaaaaaaaa\<close> is below that of \<open>aB3$xK9#mP\<close>.
\<close>

theorem CalculateEntropy_spec:
  "CalculateEntropy s =
     (\<Sum>c \<in> set (runes s).
        - (real (count_list (runes s) c) / real (length s))
          * log 2 (real (count_list (runes s) c) / real (length s))) \<and>
   ((\<forall>c \<in> set s. of_char c < (128::nat)) \<longrightarrow> CalculateEntropy s = shannon_spec (runes s)) \<and>
   CalculateEntropy [] = 0 \<and>
   CalculateEntropy ''aaaaaaaaaa'' < CalculateEntropy ''aB3$xK9#mP''"
proof (intro conjI impI)
  show "CalculateEntropy s =
     (\<Sum>c \<in> set (runes s).
        - (real (count_list (runes s) c) / real (length s))
          * log 2 (real (count_list (runes s) c) / real (length s)))"
    by (rule CalculateEntropy_sum)
  show "CalculateEntropy s = shannon_spec (runes s)" if "\<forall>c \<in> set s. of_char c < (128::nat)"
    using that by (rule CalculateEntropy_ascii)
  show "CalculateEntropy [] = 0" by (simp add: CalculateEntropy_def)
  have "(0::real) < log 2 10" by simp
  then show "CalculateEntropy ''aaaaaaaaaa'' < CalculateEntropy ''aB3$xK9#mP''"
    by (simp only: entropy_a10 entropy_mixed)
qed

theorem CalculateEntropy_spec_witness:
  "list_all (\<lambda>c. of_char c < (128::nat)) ''aB3$xK9#mP'' \<and>
   CalculateEntropy ''aB3$xK9#mP'' = shannon_spec (runes ''aB3$xK9#mP'') \<and>
   shannon_spec (runes ''aB3$xK9#mP'') = log 2 10"
proof -
  have ascii: "\<forall>c \<in> set ''aB3$xK9#mP''. of_char c < (128::nat)" by simp
  from CalculateEntropy_spec [of "''aB3$xK9#mP''"] ascii
  have "CalculateEntropy ''aB3$xK9#mP'' = shannon_spec (runes ''aB3$xK9#mP'')" by blast
  with entropy_mixed show ?thesis by (simp add: list_all_iff)
qed

text \<open>
  What \<open>CalculateEntropy64\<close> computes. Without rounding it is \<open>CalculateEntropy\<close>, in
  every order of the visit of the map. For the string of the one character U+00E9 it
  returns 1/2 on every runtime that computes \<open>1/2\<close>, \<open>math.Log2(1/2) = -1\<close> and \<open>-1/2\<close>
  without error, as \<open>float64\<close> arithmetic does. It returns 0 for the empty string, and
  for \<open>MyP@ssw0rd123!\<close> at least 3.5 on every runtime within the bounds of \<open>float64_ok\<close>.
  For \<open>aaaaaaaa\<close> it rounds the quotient, the product and the difference, in this order;
  for \<open>aab\<close> it adds the two terms in the order of the visit.
\<close>

theorem CalculateEntropy64_spec:
  "(rnd rt = (\<lambda>x. x) \<and> rnd_mul rt = (\<lambda>x. x) \<and> Log2 rt = log 2 \<longrightarrow>
      CalculateEntropy64 rt s = CalculateEntropy s) \<and>
   (rnd rt (1 / 2) = 1 / 2 \<and> Log2 rt (1 / 2) = - 1 \<and> rnd_mul rt (- (1 / 2)) = - (1 / 2) \<longrightarrow>
      CalculateEntropy64 rt [CHR 0xC3, CHR 0xA9] = 1 / 2) \<and>
   CalculateEntropy64 rt [] = 0 \<and>
   (float64_ok rt \<longrightarrow> 7 / 2 \<le> CalculateEntropy64 rt ''MyP@ssw0rd123!'') \<and>
   CalculateEntropy64 rt ''aaaaaaaa'' = rnd rt (0 - rnd_mul rt (rnd rt 1 * Log2 rt (rnd rt 1))) \<and>
   CalculateEntropy64 rt ''aab'' =
     (if visit rt (98, 1) < visit rt (97, 2)
      then rnd rt (rnd rt (0 - rnd_mul rt (rnd rt (1 / 3) * Log2 rt (rnd rt (1 / 3))))
                   - rnd_mul rt (rnd rt (2 / 3) * Log2 rt (rnd rt (2 / 3))))
      else rnd rt (rnd rt (0 - rnd_mul rt (rnd rt (2 / 3) * Log2 rt (rnd rt (2 / 3))))
                   - rnd_mul rt (rnd rt (1 / 3) * Log2 rt (rnd rt (1 / 3)))))"
proof (intro conjI impI)
  show "CalculateEntropy64 rt s = CalculateEntropy s"
    if "rnd rt = (\<lambda>x. x) \<and> rnd_mul rt = (\<lambda>x. x) \<and> Log2 rt = log 2"
    using that by (intro CalculateEntropy64_exact) simp_all
  show "CalculateEntropy64 rt [CHR 0xC3, CHR 0xA9] = 1 / 2"
    if "rnd rt (1 / 2) = 1 / 2 \<and> Log2 rt (1 / 2) = - 1 \<and> rnd_mul rt (- (1 / 2)) = - (1 / 2)"
    using that by (intro entropy64_e_acute) simp_all
  show "CalculateEntropy64 rt [] = 0" by (simp add: CalculateEntropy64_def)
  show "7 / 2 \<le> CalculateEntropy64 rt ''MyP@ssw0rd123!''" if "float64_ok rt"
    using that by (rule entropy64_pw)
  have "charCount ''aaaaaaaa'' = [(97, 8)]"
    by (simp add: charCount_def runes_def increment_def)
  then show "CalculateEntropy64 rt ''aaaaaaaa''
      = rnd rt (0 - rnd_mul rt (rnd rt 1 * Log2 rt (rnd rt 1)))"
    by (simp add: CalculateEntropy64_def Let_def)
  have "charCount ''aab'' = [(97, 2), (98, 1)]"
    by (simp add: charCount_def runes_def increment_def)
  then show "CalculateEntropy64 rt ''aab'' =
     (if visit rt (98, 1) < visit rt (97, 2)
      then rnd rt (rnd rt (0 - rnd_mul rt (rnd rt (1 / 3) * Log2 rt (rnd rt (1 / 3))))
                   - rnd_mul rt (rnd rt (2 / 3) * Log2 rt (rnd rt (2 / 3))))
      else rnd rt (rnd rt (0 - rnd_mul rt (rnd rt (2 / 3) * Log2 rt (rnd rt (2 / 3))))
                   - rnd_mul rt (rnd rt (1 / 3) * Log2 rt (rnd rt (1 / 3)))))"
    by (simp add: CalculateEntropy64_def Let_def)
qed

theorem CalculateEntropy64_spec_witness:
  "float64_ok (binary64 fst) \<and>
   7 / 2 \<le> CalculateEntropy64 (binary64 fst) ''MyP@ssw0rd123!'' \<and>
   CalculateEntropy64 (binary64 fst) [CHR 0xC3, CHR 0xA9] = 1 / 2 \<and>
   CalculateEntropy64 exact_runtime ''MyP@ssw0rd123!'' = CalculateEntropy ''MyP@ssw0rd123!''"
proof -
  have "rnd (binary64 fst) (1 / 2) = 1 / 2 \<and> Log2 (binary64 fst) (1 / 2) = - 1 \<and>
        rnd_mul (binary64 fst) (- (1 / 2)) = - (1 / 2)"
    by (simp add: binary64_def round64_half log2_half)
  moreover have "rnd exact_runtime = (\<lambda>x. x) \<and> rnd_mul exact_runtime = (\<lambda>x. x) \<and>
        Log2 exact_runtime = log 2"
    by (simp add: exact_runtime_def)
  ultimately show ?thesis
    using CalculateEntropy64_spec [of "binary64 fst" "''MyP@ssw0rd123!''"]
      CalculateEntropy64_spec [of exact_runtime "''MyP@ssw0rd123!''"]
      float64_ok_binary64 [of fst]
    by blast
qed

end
